theory Spec2Isabelle
  imports Complex_Main "HOL-Library.Word"
begin

section \<open>IBC balance tracker: the registry, the denom trace calculator, the path explorer\<close>

text \<open>
  A shallow embedding of \<^verbatim>\<open>src/index.ts\<close>. JavaScript objects that the program
  uses as dictionaries are association lists in the order the source writes their keys
  (\<^verbatim>\<open>Object.keys\<close> returns them in that order); \<^verbatim>\<open>undefined\<close> is \<open>None\<close>; an
  exception is the left summand of a result. Functions of the libraries the program
  imports (\<^verbatim>\<open>@cosmjs/encoding\<close>, \<^verbatim>\<open>@cosmjs/crypto\<close>, \<^verbatim>\<open>@cosmjs/stargate\<close>) and
  the builtin \<^verbatim>\<open>parseFloat\<close> are fields of a record of externals that every function
  of the program takes: what is proved holds for whatever they compute.
\<close>

subsection \<open>Values\<close>

type_synonym byte = "8 word"

text \<open>What the program can throw: the runtime's TypeError on reading a property of
  \<^verbatim>\<open>undefined\<close>, and the errors of the address codec and of the balance query.\<close>

datatype error = TypeError | DecodingError | EncodingError | NetworkError

text \<open>A JavaScript number by its class; a finite number by its value (both zeros are
  \<open>Finite 0\<close>).\<close>

datatype number = NaN | Finite real | PosInfinity | NegInfinity

text \<open>\<^verbatim>\<open>ToBoolean\<close> on a number: zero and NaN are falsy.\<close>

fun truthy :: "number \<Rightarrow> bool" where
  "truthy NaN = False"
| "truthy (Finite x) = (x \<noteq> 0)"
| "truthy PosInfinity = True"
| "truthy NegInfinity = True"

text \<open>\<^verbatim>\<open>balance > 0\<close>.\<close>

fun gt0 :: "number \<Rightarrow> bool" where
  "gt0 NaN = False"
| "gt0 (Finite x) = (0 < x)"
| "gt0 PosInfinity = True"
| "gt0 NegInfinity = False"

fun isFinite :: "number \<Rightarrow> bool" where
  "isFinite (Finite x) = True"
| "isFinite _ = False"

record DenomTrace =
  denom :: string
  trace :: string

text \<open>\<^verbatim>\<open>Coin\<close> of \<^verbatim>\<open>@cosmjs/stargate\<close>: \<^verbatim>\<open>{denom: string, amount: string}\<close>.\<close>

record Coin =
  coin_denom :: string
  amount :: string

record BalanceRecord =
  record_denom :: string
  originDenom :: string
  balance :: number
  record_path :: "string list"

record externals =
  toUtf8 :: "string \<Rightarrow> byte list"
  sha256 :: "byte list \<Rightarrow> byte list"
  parseFloat :: "string \<Rightarrow> number"
  fromBech32 :: "string \<Rightarrow> error + (string \<times> byte list)"
  toBech32 :: "string \<Rightarrow> byte list \<Rightarrow> error + string"
  clientGetAllBalances :: "string option \<Rightarrow> string \<Rightarrow> error + Coin list"

subsection \<open>The registry\<close>

definition chainNameToIdMap :: "(string \<times> string) list" where
  "chainNameToIdMap =
    [(''neutron'', ''neutron-1''),
     (''osmosis'', ''osmosis-1''),
     (''terra'', ''phoenix-1''),
     (''stargaze'', ''stargaze-1''),
     (''cosmoshub'', ''cosmoshub-4''),
     (''stride'', ''stride-1'')]"

definition chainNames :: "string list" where
  "chainNames = map fst chainNameToIdMap"

definition RpcUrls :: "(string \<times> string) list" where
  "RpcUrls =
    [(''neutron'', ''https://neutron-rpc.publicnode.com:443''),
     (''osmosis'', ''https://rpc.osmosis.zone''),
     (''terra'', ''https://terra-rpc.publicnode.com:443''),
     (''stargaze'', ''https://stargaze-rpc.publicnode.com:443''),
     (''cosmoshub'', ''https://cosmos-rpc.publicnode.com:443''),
     (''stride'', ''https://stride-rpc.publicnode.com:443'')]"

definition chainPrefix :: "(string \<times> string) list" where
  "chainPrefix =
    [(''neutron'', ''neutron''),
     (''osmosis'', ''osmo''),
     (''terra'', ''terra''),
     (''stargaze'', ''stars''),
     (''cosmoshub'', ''cosmos''),
     (''stride'', ''stride'')]"

definition IBCMap :: "(string \<times> (string \<times> string) list) list" where
  "IBCMap =
    [(''neutron-1'',
       [(''osmosis-1'', ''channel-10''),
        (''phoenix-1'', ''channel-25''),
        (''stargaze-1'', ''channel-18''),
        (''cosmoshub-4'', ''channel-1''),
        (''stride-1'', ''channel-8'')]),
     (''osmosis-1'',
       [(''neutron-1'', ''channel-874''),
        (''phoenix-1'', ''channel-251''),
        (''stargaze-1'', ''channel-75''),
        (''cosmoshub-4'', ''channel-0''),
        (''stride-1'', ''channel-326'')]),
     (''phoenix-1'',
       [(''neutron-1'', ''channel-229''),
        (''osmosis-1'', ''channel-1''),
        (''stargaze-1'', ''channel-324''),
        (''cosmoshub-4'', ''channel-0''),
        (''stride-1'', ''channel-46'')]),
     (''stargaze-1'',
       [(''neutron-1'', ''channel-191''),
        (''osmosis-1'', ''channel-0''),
        (''phoenix-1'', ''channel-266''),
        (''cosmoshub-4'', ''channel-239''),
        (''stride-1'', ''channel-106'')]),
     (''cosmoshub-4'',
       [(''neutron-1'', ''channel-569''),
        (''osmosis-1'', ''channel-141''),
        (''phoenix-1'', ''channel-339''),
        (''stargaze-1'', ''channel-730''),
        (''stride-1'', ''channel-391'')]),
     (''stride-1'',
       [(''neutron-1'', ''channel-123''),
        (''osmosis-1'', ''channel-5''),
        (''phoenix-1'', ''channel-52''),
        (''stargaze-1'', ''channel-19''),
        (''cosmoshub-4'', ''channel-0'')])]"

subsection \<open>Property reads and string conversion\<close>

text \<open>\<^verbatim>\<open>String(v)\<close> for a value that is a string or \<^verbatim>\<open>undefined\<close>: what a template
  literal and a computed property key make of it.\<close>

fun String :: "string option \<Rightarrow> string" where
  "String None = ''undefined''"
| "String (Some s) = s"

text \<open>\<^verbatim>\<open>obj[key]\<close> on an object literal, for a key that is a string or \<^verbatim>\<open>undefined\<close>;
  a missing property reads as \<^verbatim>\<open>undefined\<close>. The names an object literal inherits
  (\<^verbatim>\<open>constructor\<close>, \<^verbatim>\<open>toString\<close>, ...) are no chain names and no chain ids; read
  through \<^verbatim>\<open>chainNameToIdMap\<close> they give a value whose string form is no key of
  \<^verbatim>\<open>IBCMap\<close> or of its rows, as \<^verbatim>\<open>undefined\<close> does.\<close>

definition readProp :: "(string \<times> 'a) list \<Rightarrow> string option \<Rightarrow> 'a option" where
  "readProp obj key = map_of obj (String key)"

subsection \<open>hash\<close>

definition hexDigits :: string where
  "hexDigits = ''0123456789abcdef''"

text \<open>Modelled from the spec: \<^verbatim>\<open>toHex\<close> of \<^verbatim>\<open>@cosmjs/encoding\<close> is not under src/; it is
  the hexadecimal encoding of a byte array, two lowercase digits for each byte, which the
  program then turns to upper case.\<close>

definition toHex :: "byte list \<Rightarrow> string" where
  "toHex data = concat (map (\<lambda>b. [hexDigits ! (unat b div 16), hexDigits ! (unat b mod 16)]) data)"

text \<open>\<^verbatim>\<open>String.prototype.toUpperCase\<close> on a string of ASCII characters.\<close>

definition upperChar :: "char \<Rightarrow> char" where
  "upperChar c =
     (case map_of (zip ''abcdefghijklmnopqrstuvwxyz'' ''ABCDEFGHIJKLMNOPQRSTUVWXYZ'') c of
        None \<Rightarrow> c
      | Some u \<Rightarrow> u)"

definition toUpperCase :: "string \<Rightarrow> string" where
  "toUpperCase s = map upperChar s"

definition hash :: "externals \<Rightarrow> string \<Rightarrow> string" where
  "hash E s = toHex (sha256 E (toUtf8 E s))"

text \<open>The spec's \<open>uppercaseHex\<close>, written from its words: two uppercase hexadecimal
  digits for each byte.\<close>

definition uppercaseHex :: "byte list \<Rightarrow> string" where
  "uppercaseHex data =
     concat (map (\<lambda>b. [''0123456789ABCDEF'' ! (unat b div 16),
                       ''0123456789ABCDEF'' ! (unat b mod 16)]) data)"

subsection \<open>convertAddressPrefix\<close>

definition convertAddressPrefix :: "externals \<Rightarrow> string \<Rightarrow> string \<Rightarrow> error + string" where
  "convertAddressPrefix E address newPrefix =
     (if newPrefix = ''terra'' then Inr ''terra1w7mtx2g478kkhs6pgynpcjpt6aw4930q34j36v''
      else case fromBech32 E address of
             Inl e \<Rightarrow> Inl e
           | Inr (p, data) \<Rightarrow> toBech32 E newPrefix data)"

subsection \<open>getDenom\<close>

text \<open>\<^verbatim>\<open>IBCMap[destChainId]\<close> is \<^verbatim>\<open>undefined\<close> when the destination has no row, and
  reading \<^verbatim>\<open>[srcChainId]\<close> of it throws a TypeError; a row without the source's id
  gives \<^verbatim>\<open>undefined\<close> for the channel, which the template literal prints.\<close>

definition getDenom :: "externals \<Rightarrow> string \<Rightarrow> string \<Rightarrow> DenomTrace \<Rightarrow> error + DenomTrace" where
  "getDenom E srcChain destChain baseDenomTrace =
     (let srcChainId = map_of chainNameToIdMap srcChain;
          destChainId = map_of chainNameToIdMap destChain
      in case readProp IBCMap destChainId of
           None \<Rightarrow> Inl TypeError
         | Some row \<Rightarrow>
             (let channelId = readProp row srcChainId;
                  trace' = ''transfer/'' @ String channelId @ ''/'' @ trace baseDenomTrace
              in Inr \<lparr>denom = ''ibc/'' @ toUpperCase (hash E trace'), trace = trace'\<rparr>))"

subsection \<open>getAllBalances\<close>

text \<open>\<^verbatim>\<open>StargateClient.connect(rpc)\<close> followed by \<^verbatim>\<open>client.getAllBalances(account)\<close> is
  the external \<open>clientGetAllBalances\<close>: the balance list, or the error of the query.\<close>

definition getAllBalances :: "externals \<Rightarrow> string \<Rightarrow> string \<Rightarrow> error + Coin list" where
  "getAllBalances E chainName account =
     (let rpc = map_of RpcUrls chainName in clientGetAllBalances E rpc account)"

subsection \<open>trackBalances\<close>

text \<open>The snapshots. The source starts the six queries together and waits for all of
  them; each is a function of the endpoint and the address, so the model runs them in the
  order of \<open>chainNames\<close>. When several fail, which failure rejects the whole is a matter of
  timing in the source and the first in that order here. A chain without an entry in
  \<open>chainPrefix\<close> would pass \<^verbatim>\<open>undefined\<close> to the codec; no name of \<open>chainNames\<close> is one
  (lemma \<open>chainPrefix_defined\<close>), and the model gives that case the TypeError.\<close>

fun fetchAll :: "externals \<Rightarrow> string \<Rightarrow> string list \<Rightarrow> error + (string \<times> Coin list) list" where
  "fetchAll E account [] = Inr []"
| "fetchAll E account (chain # others) =
     (case map_of chainPrefix chain of
        None \<Rightarrow> Inl TypeError
      | Some newPrefix \<Rightarrow>
          (case convertAddressPrefix E account newPrefix of
             Inl e \<Rightarrow> Inl e
           | Inr address \<Rightarrow>
               (case getAllBalances E chain address of
                  Inl e \<Rightarrow> Inl e
                | Inr coins \<Rightarrow>
                    (case fetchAll E account others of
                       Inl e \<Rightarrow> Inl e
                     | Inr rest \<Rightarrow> Inr ((chain, coins) # rest)))))"

text \<open>\<^verbatim>\<open>path[path.length - 1]\<close>: \<^verbatim>\<open>undefined\<close> on the empty path.\<close>

definition currentChain :: "string list \<Rightarrow> string option" where
  "currentChain path = (if path = [] then None else Some (last path))"

text \<open>Lines 202 to 206: the amount of the first coin of the list whose denom is that of
  the trace, \<^verbatim>\<open>'0'\<close> when there is none or when its amount is the empty string, parsed.\<close>

definition lookupBalance :: "externals \<Rightarrow> Coin list \<Rightarrow> DenomTrace \<Rightarrow> number" where
  "lookupBalance E coins denomTrace =
     parseFloat E
       (case find (\<lambda>accountBalance. coin_denom accountBalance = denom denomTrace) coins of
          None \<Rightarrow> ''0''
        | Some accountBalance \<Rightarrow>
            (if amount accountBalance = [] then ''0'' else amount accountBalance))"

text \<open>Lines 208 to 216: the list of the chain is created when it is missing, and the
  record is pushed at its end.\<close>

definition pushRecord ::
  "(string \<rightharpoonup> BalanceRecord list) \<Rightarrow> string \<Rightarrow> BalanceRecord \<Rightarrow> (string \<rightharpoonup> BalanceRecord list)" where
  "pushRecord balances chain r =
     balances(chain \<mapsto> (case balances chain of None \<Rightarrow> [] | Some rs \<Rightarrow> rs) @ [r])"

text \<open>Lines 202 to 217, once \<^verbatim>\<open>allBalances[currentChain]\<close> is the list \<open>coins\<close>.\<close>

definition visit ::
  "externals \<Rightarrow> Coin list \<Rightarrow> string \<Rightarrow> string list \<Rightarrow> DenomTrace \<Rightarrow>
   (string \<rightharpoonup> BalanceRecord list) \<Rightarrow> (string \<rightharpoonup> BalanceRecord list)" where
  "visit E coins denom' path denomTrace balances =
     (let balance' = lookupBalance E coins denomTrace
      in if truthy balance' \<and> gt0 balance'
         then pushRecord balances (String (currentChain path))
                \<lparr>record_denom = denom denomTrace, originDenom = denom',
                 balance = balance', record_path = path\<rparr>
         else balances)"

text \<open>The measure of the recursion: the chains that are not yet in \<^verbatim>\<open>path.slice(1)\<close>.\<close>

definition remaining :: "string list \<Rightarrow> nat" where
  "remaining path =
     2 * card (set chainNames - set (tl path)) + (if path = [] then 1 else 0)"

text \<open>The closure \<^verbatim>\<open>DFS\<close> of \<open>trackBalances\<close>, with what it captures (\<open>allBalances\<close>, the
  tracked \<open>denom\<close>) as arguments and the mapping \<open>balances\<close> that it mutates passed through.
  \<^verbatim>\<open>allBalances[currentChain].find\<close> throws a TypeError when the chain has no snapshot,
  before anything is pushed. The callback of \<^verbatim>\<open>chainNames.map\<close> is an \<^verbatim>\<open>async\<close> function
  without \<^verbatim>\<open>await\<close>: it runs to its end at once, and an exception inside it (of \<open>getDenom\<close>
  or of the nested call) rejects its promise and does not leave the callback, so the loop
  goes on with the next chain and the mapping as it was.\<close>

function DFS ::
  "externals \<Rightarrow> (string \<rightharpoonup> Coin list) \<Rightarrow> string \<Rightarrow> string list \<Rightarrow> DenomTrace \<Rightarrow>
   (string \<rightharpoonup> BalanceRecord list) \<Rightarrow> error + (string \<rightharpoonup> BalanceRecord list)" where
  "DFS E allBalances denom' path denomTrace balances =
     (case allBalances (String (currentChain path)) of
        None \<Rightarrow> Inl TypeError
      | Some coins \<Rightarrow>
          Inr (fold
                (\<lambda>chain b.
                   if chain \<notin> set (tl path) \<and> currentChain path \<noteq> Some chain
                   then (case getDenom E (String (currentChain path)) chain denomTrace of
                           Inl e \<Rightarrow> b
                         | Inr t \<Rightarrow>
                             (case DFS E allBalances denom' (path @ [chain]) t b of
                                Inl e \<Rightarrow> b
                              | Inr b' \<Rightarrow> b'))
                   else b)
                chainNames
                (visit E coins denom' path denomTrace balances)))"
  by pat_completeness auto
termination
proof (relation "measure (\<lambda>(E, allBalances, denom', path, denomTrace, balances). remaining path)")
  show "wf (measure (\<lambda>(E, allBalances, denom', path, denomTrace, balances). remaining path))"
    by simp
next
  fix E :: externals and allBalances :: "string \<rightharpoonup> Coin list" and denom' :: string
    and path :: "string list" and denomTrace :: DenomTrace
    and balances b :: "string \<rightharpoonup> BalanceRecord list"
    and coins chain t
  assume "chain \<in> set chainNames" and "chain \<notin> set (tl path) \<and> currentChain path \<noteq> Some chain"
  then have "card (set chainNames - set (tl path) - {chain}) < card (set chainNames - set (tl path))"
    by (intro card_Diff1_less) simp_all
  moreover have "set chainNames - set (tl (path @ [chain])) =
      (if path = [] then set chainNames - set (tl path)
       else set chainNames - set (tl path) - {chain})"
    by (cases path) auto
  ultimately have "remaining (path @ [chain]) < remaining path"
    by (simp add: remaining_def)
  then show "((E, allBalances, denom', path @ [chain], t, b),
              (E, allBalances, denom', path, denomTrace, balances))
             \<in> measure (\<lambda>(E, allBalances, denom', path, denomTrace, balances). remaining path)"
    by simp
qed

text \<open>The arguments \<open>(path, denomTrace)\<close> of the calls of \<open>DFS\<close> that a call gives rise to,
  itself first, in the order in which they are made: the recursion of \<open>DFS\<close> without the
  mapping.\<close>

function DFS_calls ::
  "externals \<Rightarrow> (string \<rightharpoonup> Coin list) \<Rightarrow> string list \<Rightarrow> DenomTrace \<Rightarrow>
   (string list \<times> DenomTrace) list" where
  "DFS_calls E allBalances path denomTrace =
     (path, denomTrace) #
     (case allBalances (String (currentChain path)) of
        None \<Rightarrow> []
      | Some coins \<Rightarrow>
          concat (map
            (\<lambda>chain.
               if chain \<notin> set (tl path) \<and> currentChain path \<noteq> Some chain
               then (case getDenom E (String (currentChain path)) chain denomTrace of
                       Inl e \<Rightarrow> []
                     | Inr t \<Rightarrow> DFS_calls E allBalances (path @ [chain]) t)
               else [])
            chainNames))"
  by pat_completeness auto
termination
proof (relation "measure (\<lambda>(E, allBalances, path, denomTrace). remaining path)")
  show "wf (measure (\<lambda>(E, allBalances, path, denomTrace). remaining path))"
    by simp
next
  fix E :: externals and allBalances :: "string \<rightharpoonup> Coin list"
    and path :: "string list" and denomTrace :: DenomTrace
    and coins chain t
  assume "chain \<in> set chainNames" and "chain \<notin> set (tl path) \<and> currentChain path \<noteq> Some chain"
  then have "card (set chainNames - set (tl path) - {chain}) < card (set chainNames - set (tl path))"
    by (intro card_Diff1_less) simp_all
  moreover have "set chainNames - set (tl (path @ [chain])) =
      (if path = [] then set chainNames - set (tl path)
       else set chainNames - set (tl path) - {chain})"
    by (cases path) auto
  ultimately have "remaining (path @ [chain]) < remaining path"
    by (simp add: remaining_def)
  then show "((E, allBalances, path @ [chain], t), (E, allBalances, path, denomTrace))
             \<in> measure (\<lambda>(E, allBalances, path, denomTrace). remaining path)"
    by simp
qed

declare DFS.simps [simp del] DFS_calls.simps [simp del]

definition trackBalances ::
  "externals \<Rightarrow> string \<Rightarrow> string \<Rightarrow> error + (string \<rightharpoonup> BalanceRecord list)" where
  "trackBalances E denom' account =
     (case fetchAll E account chainNames of
        Inl e \<Rightarrow> Inl e
      | Inr allBalances \<Rightarrow>
          DFS E (map_of allBalances) denom' [''neutron'']
            \<lparr>denom = denom', trace = denom'\<rparr> Map.empty)"

subsection \<open>Notions for the statements about the traversal\<close>

text \<open>What one call of \<open>DFS\<close> does to the mapping by its own lines 201 to 217, the
  nested calls left out: nothing when the chain has no snapshot (the call throws).\<close>

definition visitAt ::
  "externals \<Rightarrow> (string \<rightharpoonup> Coin list) \<Rightarrow> string \<Rightarrow> string list \<times> DenomTrace \<Rightarrow>
   (string \<rightharpoonup> BalanceRecord list) \<Rightarrow> (string \<rightharpoonup> BalanceRecord list)" where
  "visitAt E allBalances denom' call balances =
     (case allBalances (String (currentChain (fst call))) of
        None \<Rightarrow> balances
      | Some coins \<Rightarrow> visit E coins denom' (fst call) (snd call) balances)"

text \<open>The list of a chain in the mapping, empty when the chain is no key of it.\<close>

definition recordsOf :: "(string \<rightharpoonup> BalanceRecord list) \<Rightarrow> string \<Rightarrow> BalanceRecord list" where
  "recordsOf balances chain = (case balances chain of None \<Rightarrow> [] | Some rs \<Rightarrow> rs)"

text \<open>The records (none or one) that one call of \<open>DFS\<close> pushes to the list of the chain.\<close>

definition pushed ::
  "externals \<Rightarrow> (string \<rightharpoonup> Coin list) \<Rightarrow> string \<Rightarrow> string \<Rightarrow> string list \<times> DenomTrace \<Rightarrow>
   BalanceRecord list" where
  "pushed E allBalances denom' chain call =
     (case allBalances (String (currentChain (fst call))) of
        None \<Rightarrow> []
      | Some coins \<Rightarrow>
          if String (currentChain (fst call)) = chain \<and> gt0 (lookupBalance E coins (snd call))
          then [\<lparr>record_denom = denom (snd call), originDenom = denom',
                 balance = lookupBalance E coins (snd call), record_path = fst call\<rparr>]
          else [])"

text \<open>The amended claim C2 in its own words, to be compared with \<open>visit\<close>: the record
  that the visit of a node \<open>(path, trace)\<close> appends to the list of a chain, if any. The chain
  is the last of the path; the first coin of the chain's snapshot whose denom is that of
  the trace exists; its amount is not empty and parses to a number greater than 0.\<close>

definition spec_appended ::
  "externals \<Rightarrow> (string \<rightharpoonup> Coin list) \<Rightarrow> string \<Rightarrow> string \<Rightarrow> string list \<times> DenomTrace \<Rightarrow>
   BalanceRecord option" where
  "spec_appended E allBalances denom' chain call =
     (if fst call \<noteq> [] \<and> last (fst call) = chain
      then (case allBalances chain of
              None \<Rightarrow> None
            | Some coins \<Rightarrow>
                (case find (\<lambda>coin. coin_denom coin = denom (snd call)) coins of
                   None \<Rightarrow> None
                 | Some coin \<Rightarrow>
                     if amount coin \<noteq> [] \<and> gt0 (parseFloat E (amount coin))
                     then Some \<lparr>record_denom = denom (snd call), originDenom = denom',
                                balance = parseFloat E (amount coin), record_path = fst call\<rparr>
                     else None))
      else None)"

subsection \<open>The address codec\<close>

text \<open>The program imports \<open>fromBech32\<close> and \<open>toBech32\<close> from \<^verbatim>\<open>@cosmjs/encoding\<close>, which
  wraps the \<^verbatim>\<open>bech32\<close> package; neither is under src/. The spec describes the codec as a
  checksummed text encoding in which a prefix identifies the chain and the payload is the
  key hash. The definitions of this subsection model it. Strings are sequences of 8-bit
  characters; the integers of the bit operations are 32-bit words.\<close>

unbundle bit_operations_syntax

text \<open>Modelled from the spec: \<^verbatim>\<open>String.prototype.toLowerCase\<close> on one ASCII character, which the
  codec uses to refuse mixed case.\<close>

definition lowerChar :: "char \<Rightarrow> char" where
  "lowerChar c =
     (case map_of (zip ''ABCDEFGHIJKLMNOPQRSTUVWXYZ'' ''abcdefghijklmnopqrstuvwxyz'') c of
        None \<Rightarrow> c
      | Some l \<Rightarrow> l)"

text \<open>Modelled from the spec: \<^verbatim>\<open>String.prototype.toLowerCase\<close> on a string of ASCII characters.\<close>

definition toLowerCase :: "string \<Rightarrow> string" where
  "toLowerCase s = map lowerChar s"

text \<open>Modelled from the spec: the 32 characters of the data part of a Bech32 string, the index
  of a character being its 5-bit value.\<close>

definition ALPHABET :: string where
  "ALPHABET = ''qpzry9x8gf2tvdw0s3jn54khce6mua7l''"

text \<open>Modelled from the spec: the value of a character of the alphabet, \<open>None\<close> for any other
  character.\<close>

definition ALPHABET_MAP :: "char \<Rightarrow> nat option" where
  "ALPHABET_MAP = map_of (zip ALPHABET [0..<32])"

text \<open>Modelled from the spec: one step of the checksum of the checksummed text encoding, the
  BCH code of Bech32, on 32-bit integers as the package computes it.\<close>

definition polymodStep :: "32 word \<Rightarrow> 32 word" where
  "polymodStep pre =
     (let b = signed_drop_bit 25 pre
      in push_bit 5 (pre AND 0x1ffffff)
         XOR (- (signed_drop_bit 0 b AND 1) AND 0x3b6a57b2)
         XOR (- (signed_drop_bit 1 b AND 1) AND 0x26508e6d)
         XOR (- (signed_drop_bit 2 b AND 1) AND 0x1ea119fa)
         XOR (- (signed_drop_bit 3 b AND 1) AND 0x3d4233dd)
         XOR (- (signed_drop_bit 4 b AND 1) AND 0x2a1462b3))"

text \<open>Modelled from the spec: the checksum state after the prefix: the high bits of its
  character codes, a zero, their low five bits. A character code outside 33..126 is
  refused.\<close>

definition prefixChk :: "string \<Rightarrow> error + 32 word" where
  "prefixChk prefix' =
     (if \<exists>c \<in> set prefix'. of_char c < (33::nat) \<or> (126::nat) < of_char c then Inl DecodingError
      else
        let chk = fold (\<lambda>c chk. polymodStep chk XOR signed_drop_bit 5 (word_of_nat (of_char c))) prefix' 1;
            chk = polymodStep chk
        in Inr (fold (\<lambda>v chk. polymodStep chk XOR (word_of_nat (of_char v) AND 0x1f)) prefix' chk))"

text \<open>Modelled from the spec: the inner loop of the regrouping of bits: while enough bits are
  pending, the most significant \<open>outBits\<close> of them are pushed. (It runs only for a positive
  \<open>outBits\<close>, which is 5 or 8 here.)\<close>

function emit :: "nat \<Rightarrow> 32 word \<Rightarrow> nat \<Rightarrow> nat list \<Rightarrow> nat \<times> nat list" where
  "emit outBits value' bits result =
     (if 0 < outBits \<and> outBits \<le> bits
      then emit outBits value' (bits - outBits)
             (result @ [unat (signed_drop_bit (bits - outBits) value' AND mask outBits)])
      else (bits, result))"
  by pat_completeness auto
termination
  by (relation "measure (\<lambda>(outBits, value', bits, result). bits)") auto

declare emit.simps [simp del]

text \<open>Modelled from the spec: the outer loop of the regrouping: each input value is shifted
  into the 32-bit accumulator, which is never masked, and the complete groups are pushed.\<close>

fun convert_loop :: "nat \<Rightarrow> nat \<Rightarrow> nat list \<Rightarrow> 32 word \<times> nat \<times> nat list \<Rightarrow> 32 word \<times> nat \<times> nat list" where
  "convert_loop inBits outBits [] s = s"
| "convert_loop inBits outBits (d # data) (value', bits, result) =
     (let value' = push_bit inBits value' OR word_of_nat d;
          (bits, result) = emit outBits value' (bits + inBits) result
      in convert_loop inBits outBits data (value', bits, result))"

text \<open>Modelled from the spec: the regrouping of a sequence of \<open>inBits\<close>-bit values into
  \<open>outBits\<close>-bit values; with padding, the pending bits are pushed, filled with zeros;
  without, at least \<open>inBits\<close> pending bits or a pending bit that is set are an error.\<close>

definition convert :: "nat list \<Rightarrow> nat \<Rightarrow> nat \<Rightarrow> bool \<Rightarrow> error + nat list" where
  "convert data inBits outBits pad =
     (let (value', bits, result) = convert_loop inBits outBits data (0, 0, [])
      in if pad
         then Inr (if 0 < bits
                   then result @ [unat (push_bit (outBits - bits) value' AND mask outBits)]
                   else result)
         else if inBits \<le> bits then Inl DecodingError
         else if push_bit (outBits - bits) value' AND mask outBits \<noteq> 0 then Inl DecodingError
         else Inr result)"

text \<open>Modelled from the spec: bytes to 5-bit words, padded.\<close>

definition toWords :: "nat list \<Rightarrow> error + nat list" where
  "toWords bytes = convert bytes 8 5 True"

text \<open>Modelled from the spec: 5-bit words to bytes; the padding must be short and zero.\<close>

definition fromWords :: "nat list \<Rightarrow> error + nat list" where
  "fromWords words = convert words 5 8 False"

text \<open>Modelled from the spec: \<^verbatim>\<open>String.prototype.lastIndexOf\<close> for a character, \<open>None\<close> for -1.\<close>

definition lastIndexOf :: "string \<Rightarrow> char \<Rightarrow> nat option" where
  "lastIndexOf str c =
     (case dropWhile (\<lambda>x. x \<noteq> c) (rev str) of [] \<Rightarrow> None | x # front \<Rightarrow> Some (length front))"

text \<open>Modelled from the spec: the encoder of the checksummed text encoding (the chain prefix,
  the separator \<^verbatim>\<open>1\<close>, the payload in 5-bit characters, six checksum characters), with
  its default limit of 90 characters, which \<open>toBech32\<close> leaves in place.\<close>

definition bech32_encode :: "string \<Rightarrow> nat list \<Rightarrow> error + string" where
  "bech32_encode prefix' words =
     (if 90 < length prefix' + 7 + length words then Inl TypeError
      else
        let prefix' = toLowerCase prefix' in
        case prefixChk prefix' of
          Inl e \<Rightarrow> Inl EncodingError
        | Inr chk \<Rightarrow>
            if \<exists>x \<in> set words. drop_bit 5 x \<noteq> 0 then Inl EncodingError
            else
              let chk = fold (\<lambda>x chk. polymodStep chk XOR word_of_nat x) words chk;
                  result = prefix' @ ''1'' @ map (\<lambda>x. ALPHABET ! x) words;
                  chk = (polymodStep ^^ 6) chk;
                  chk = chk XOR 1
              in Inr (result @
                      map (\<lambda>i. ALPHABET ! unat (signed_drop_bit ((5 - i) * 5) chk AND 0x1f)) [0..<6]))"

text \<open>Modelled from the spec: the decoder: at least 8 characters, all in lower case or all in
  upper case, the prefix before the last \<^verbatim>\<open>1\<close>, at least six characters after it, all of
  the alphabet, and a checksum that verifies. \<open>fromBech32\<close> calls it without a limit on the
  length.\<close>

definition bech32_decode :: "string \<Rightarrow> error + (string \<times> nat list)" where
  "bech32_decode str =
     (if length str < 8 then Inl DecodingError
      else if str \<noteq> toLowerCase str \<and> str \<noteq> toUpperCase str then Inl DecodingError
      else
        let str = toLowerCase str in
        case lastIndexOf str CHR ''1'' of
          None \<Rightarrow> Inl DecodingError
        | Some split \<Rightarrow>
            if split = 0 then Inl DecodingError
            else
              let prefix' = take split str;
                  wordChars = drop (split + 1) str
              in if length wordChars < 6 then Inl DecodingError
                 else case prefixChk prefix' of
                   Inl e \<Rightarrow> Inl DecodingError
                 | Inr chk \<Rightarrow>
                     if \<exists>c \<in> set wordChars. ALPHABET_MAP c = None then Inl DecodingError
                     else
                       let vs = map (\<lambda>c. case ALPHABET_MAP c of None \<Rightarrow> 0 | Some v \<Rightarrow> v) wordChars;
                           chk = fold (\<lambda>v chk. polymodStep chk XOR word_of_nat v) vs chk
                       in if chk \<noteq> 1 then Inl DecodingError
                          else Inr (prefix', take (length wordChars - 6) vs))"

text \<open>Modelled from the spec: \<open>toBech32\<close> of \<^verbatim>\<open>@cosmjs/encoding\<close>, not under src/: the bytes are
  regrouped into 5-bit words with padding and encoded under the prefix.\<close>

definition cosmjs_toBech32 :: "string \<Rightarrow> byte list \<Rightarrow> error + string" where
  "cosmjs_toBech32 prefix' data =
     (case toWords (map unat data) of
        Inl e \<Rightarrow> Inl e
      | Inr words \<Rightarrow> bech32_encode prefix' words)"

text \<open>Modelled from the spec: \<open>fromBech32\<close> of \<^verbatim>\<open>@cosmjs/encoding\<close>, not under src/: the
  address is decoded and its words are regrouped into bytes without padding.\<close>

definition cosmjs_fromBech32 :: "string \<Rightarrow> error + (string \<times> byte list)" where
  "cosmjs_fromBech32 address =
     (case bech32_decode address of
        Inl e \<Rightarrow> Inl e
      | Inr (prefix', words) \<Rightarrow>
          (case fromWords words of
             Inl e \<Rightarrow> Inl e
           | Inr bytes \<Rightarrow> Inr (prefix', map word_of_nat bytes)))"

subsection \<open>Notions for the proofs about the codec\<close>

text \<open>The number that a sequence of \<open>k\<close>-bit digits writes, most significant digit first.\<close>

definition digitsValue :: "nat \<Rightarrow> nat list \<Rightarrow> nat" where
  "digitsValue k ds = foldl (\<lambda>n d. n * 2 ^ k + d) 0 ds"

text \<open>The invariant of \<open>convert_loop\<close> after the input values \<open>ds\<close>: the accumulator is the
  number they write (modulo \<open>2 ^ 32\<close>), and the values pushed so far write that number
  without its pending low bits.\<close>

definition convert_inv :: "nat \<Rightarrow> nat \<Rightarrow> nat list \<Rightarrow> 32 word \<times> nat \<times> nat list \<Rightarrow> bool" where
  "convert_inv inBits outBits ds s =
     (case s of (value', bits, result) \<Rightarrow>
        value' = word_of_nat (digitsValue inBits ds) \<and> bits < outBits \<and>
        digitsValue outBits result = digitsValue inBits ds div 2 ^ bits \<and>
        length result * outBits + bits = inBits * length ds \<and>
        (\<forall>x \<in> set result. x < 2 ^ outBits))"

text \<open>One character of the data part in the checksum.\<close>

definition chkStep :: "nat \<Rightarrow> 32 word \<Rightarrow> 32 word" where
  "chkStep v chk = polymodStep chk XOR word_of_nat v"

text \<open>\<open>polymodStep\<close> on natural numbers (lemma \<open>polymodStep_nat\<close>), for evaluation.\<close>

definition polymod_nat :: "nat \<Rightarrow> nat" where
  "polymod_nat pre =
     (let b = pre div 2 ^ 25
      in (pre mod 2 ^ 25) * 32
         XOR (if odd b then 0x3b6a57b2 else 0)
         XOR (if odd (b div 2) then 0x26508e6d else 0)
         XOR (if odd (b div 4) then 0x1ea119fa else 0)
         XOR (if odd (b div 8) then 0x3d4233dd else 0)
         XOR (if odd (b div 16) then 0x2a1462b3 else 0))"

subsection \<open>Example data\<close>

text \<open>Externals for the examples: a codec that accepts every address, a balance source
  that answers with the given coins on the endpoint of neutron and with no coins on the
  others, and the values of \<^verbatim>\<open>parseFloat\<close> on the three amounts that occur in the
  examples.\<close>

definition exampleExternals :: "Coin list \<Rightarrow> externals" where
  "exampleExternals neutronCoins =
     \<lparr>toUtf8 = map (\<lambda>c. of_nat (of_char c)),
      sha256 = (\<lambda>data. data),
      parseFloat = (\<lambda>s. if s = ''Infinity'' then PosInfinity
                         else if s = ''5'' then Finite 5
                         else if s = ''0'' then Finite 0
                         else NaN),
      fromBech32 = (\<lambda>address. Inr (''neutron'', [])),
      toBech32 = (\<lambda>newPrefix data. Inr (newPrefix @ ''1'')),
      clientGetAllBalances =
        (\<lambda>rpc account. Inr (if rpc = Some ''https://neutron-rpc.publicnode.com:443''
                             then neutronCoins else []))\<rparr>"

text \<open>The snapshots that these externals give.\<close>

definition exampleSnapshots :: "Coin list \<Rightarrow> (string \<times> Coin list) list" where
  "exampleSnapshots neutronCoins =
     [(''neutron'', neutronCoins), (''osmosis'', []), (''terra'', []),
      (''stargaze'', []), (''cosmoshub'', []), (''stride'', [])]"

text \<open>The example externals with the modelled codec.\<close>

definition exampleCodec :: externals where
  "exampleCodec = (exampleExternals [])\<lparr>fromBech32 := cosmjs_fromBech32, toBech32 := cosmjs_toBech32\<rparr>"

section \<open>Properties\<close>

subsection \<open>Upper-case hexadecimal\<close>

lemma nibble_cases: "n < 16 \<Longrightarrow> n \<in> {0,1,2,3,4,5,6,7,8,9,10,11,12,13,14,15::nat}"
  by simp arith

lemma upper_digit:
  assumes "n < (16::nat)"
  shows "upperChar (hexDigits ! n) = ''0123456789ABCDEF'' ! n"
  using nibble_cases [OF assms]
  by (elim insertE emptyE) (simp_all add: upperChar_def hexDigits_def)

lemma unat_byte_div16: "unat (b :: byte) div 16 < 16"
proof -
  have "unat b < 256" using unsigned_less [of b] by simp
  then show ?thesis by simp
qed

lemma toUpperCase_toHex: "toUpperCase (toHex data) = uppercaseHex data"
  by (induction data)
     (simp_all add: toHex_def uppercaseHex_def toUpperCase_def upper_digit unat_byte_div16)

subsection \<open>getDenom\<close>

text \<open>C1. For registered chains \<open>srcChain\<close> and \<open>destChain\<close> whose edge
  \<^verbatim>\<open>IBCMap[destChainId][srcChainId]\<close> is the channel \<open>c\<close>, and every DenomTrace \<open>t\<close>,
  \<open>getDenom\<close> returns the trace \<^verbatim>\<open>"transfer/" + c + "/" + t.trace\<close> and the denom
  \<^verbatim>\<open>"ibc/"\<close> followed by the upper-case hexadecimal encoding of the SHA-256 of the UTF-8
  bytes of that trace.\<close>

theorem getDenom_registered_edge:
  assumes "map_of chainNameToIdMap srcChain = Some srcChainId"
      and "map_of chainNameToIdMap destChain = Some destChainId"
      and "map_of IBCMap destChainId = Some row"
      and "map_of row srcChainId = Some c"
  shows "getDenom E srcChain destChain t =
           Inr \<lparr>denom = ''ibc/'' @ uppercaseHex (sha256 E (toUtf8 E (''transfer/'' @ c @ ''/'' @ trace t))),
                trace = ''transfer/'' @ c @ ''/'' @ trace t\<rparr>"
  using assms by (simp add: getDenom_def readProp_def hash_def toUpperCase_toHex Let_def)

lemma chainId_neutron: "map_of chainNameToIdMap ''neutron'' = Some ''neutron-1''"
  by (simp add: chainNameToIdMap_def)

lemma chainId_osmosis: "map_of chainNameToIdMap ''osmosis'' = Some ''osmosis-1''"
  by (simp add: chainNameToIdMap_def)

lemma row_osmosis: "map_of IBCMap ''osmosis-1'' =
     Some [(''neutron-1'', ''channel-874''),
        (''phoenix-1'', ''channel-251''),
        (''stargaze-1'', ''channel-75''),
        (''cosmoshub-4'', ''channel-0''),
        (''stride-1'', ''channel-326'')]"
  by (simp add: IBCMap_def)

theorem getDenom_registered_edge_witness:
  "map_of chainNameToIdMap ''neutron'' = Some ''neutron-1'' \<and>
   map_of chainNameToIdMap ''osmosis'' = Some ''osmosis-1'' \<and>
   map_of IBCMap ''osmosis-1'' =
     Some [(''neutron-1'', ''channel-874''),
        (''phoenix-1'', ''channel-251''),
        (''stargaze-1'', ''channel-75''),
        (''cosmoshub-4'', ''channel-0''),
        (''stride-1'', ''channel-326'')] \<and>
   map_of [(''neutron-1'', ''channel-874''),
        (''phoenix-1'', ''channel-251''),
        (''stargaze-1'', ''channel-75''),
        (''cosmoshub-4'', ''channel-0''),
        (''stride-1'', ''channel-326'')] ''neutron-1'' = Some ''channel-874'' \<and>
   (\<forall>E. getDenom E ''neutron'' ''osmosis'' \<lparr>denom = ''denomX'', trace = ''denomX''\<rparr> =
       Inr \<lparr>denom = ''ibc/'' @ uppercaseHex (sha256 E (toUtf8 E ''transfer/channel-874/denomX'')),
            trace = ''transfer/channel-874/denomX''\<rparr>)"
proof -
  have c: "map_of [(''neutron-1'', ''channel-874''),
        (''phoenix-1'', ''channel-251''),
        (''stargaze-1'', ''channel-75''),
        (''cosmoshub-4'', ''channel-0''),
        (''stride-1'', ''channel-326'')] ''neutron-1'' = Some ''channel-874''"
    by simp
  show ?thesis
    using getDenom_registered_edge [OF chainId_neutron chainId_osmosis row_osmosis c,
        of _ "\<lparr>denom = ''denomX'', trace = ''denomX''\<rparr>"]
      chainId_neutron chainId_osmosis row_osmosis c
    by simp
qed

text \<open>C3 as stated fails: with source and destination both \<^verbatim>\<open>neutron\<close> the table has
  the destination's row but no entry for the source, and \<open>getDenom\<close> returns a DenomTrace
  whose channel reads \<^verbatim>\<open>undefined\<close>.\<close>

theorem getDenom_missing_edge_counterexample:
  "readProp IBCMap (map_of chainNameToIdMap ''neutron'') \<noteq> None \<and>
   readProp (the (readProp IBCMap (map_of chainNameToIdMap ''neutron'')))
      (map_of chainNameToIdMap ''neutron'') = None \<and>
   (\<forall>E. getDenom E ''neutron'' ''neutron'' \<lparr>denom = ''denomX'', trace = ''denomX''\<rparr> =
       Inr \<lparr>denom = ''ibc/'' @ uppercaseHex (sha256 E (toUtf8 E ''transfer/undefined/denomX'')),
            trace = ''transfer/undefined/denomX''\<rparr>)"
  by (simp add: getDenom_def readProp_def hash_def toUpperCase_toHex Let_def
        chainNameToIdMap_def IBCMap_def)

text \<open>C3, amended. When the channel table has no edge for the pair: if the destination
  has no row in \<open>IBCMap\<close> (as for a chain name that is not registered), \<open>getDenom\<close> fails,
  with the runtime's TypeError; if the destination has a row that lacks the source's id (as
  when source and destination are the same chain), \<open>getDenom\<close> does not fail and returns
  the DenomTrace built with \<^verbatim>\<open>undefined\<close> for the channel id.\<close>

theorem getDenom_missing_edge:
  "(readProp IBCMap (map_of chainNameToIdMap destChain) = None \<longrightarrow>
      getDenom E srcChain destChain t = Inl TypeError) \<and>
   (readProp IBCMap (map_of chainNameToIdMap destChain) = Some row \<and>
    readProp row (map_of chainNameToIdMap srcChain) = None \<longrightarrow>
      getDenom E srcChain destChain t =
        Inr \<lparr>denom = ''ibc/'' @ uppercaseHex (sha256 E (toUtf8 E (''transfer/undefined/'' @ trace t))),
             trace = ''transfer/undefined/'' @ trace t\<rparr>)"
  by (simp add: getDenom_def hash_def toUpperCase_toHex Let_def)

theorem getDenom_missing_edge_witness:
  "readProp IBCMap (map_of chainNameToIdMap ''mars'') = None \<and>
   (\<forall>E. getDenom E ''neutron'' ''mars'' \<lparr>denom = ''denomX'', trace = ''denomX''\<rparr> = Inl TypeError) \<and>
   readProp IBCMap (map_of chainNameToIdMap ''osmosis'') =
     Some [(''neutron-1'', ''channel-874''),
        (''phoenix-1'', ''channel-251''),
        (''stargaze-1'', ''channel-75''),
        (''cosmoshub-4'', ''channel-0''),
        (''stride-1'', ''channel-326'')] \<and>
   readProp [(''neutron-1'', ''channel-874''),
        (''phoenix-1'', ''channel-251''),
        (''stargaze-1'', ''channel-75''),
        (''cosmoshub-4'', ''channel-0''),
        (''stride-1'', ''channel-326'')] (map_of chainNameToIdMap ''osmosis'') = None \<and>
   (\<forall>E. getDenom E ''osmosis'' ''osmosis'' \<lparr>denom = ''denomX'', trace = ''denomX''\<rparr> =
       Inr \<lparr>denom = ''ibc/'' @ uppercaseHex (sha256 E (toUtf8 E ''transfer/undefined/denomX'')),
            trace = ''transfer/undefined/denomX''\<rparr>)"
proof -
  have a: "readProp IBCMap (map_of chainNameToIdMap ''mars'') = None"
    by (simp add: readProp_def chainNameToIdMap_def IBCMap_def)
  have b: "readProp IBCMap (map_of chainNameToIdMap ''osmosis'') =
     Some [(''neutron-1'', ''channel-874''),
        (''phoenix-1'', ''channel-251''),
        (''stargaze-1'', ''channel-75''),
        (''cosmoshub-4'', ''channel-0''),
        (''stride-1'', ''channel-326'')]"
    by (simp add: readProp_def chainNameToIdMap_def IBCMap_def)
  have c: "readProp [(''neutron-1'', ''channel-874''),
        (''phoenix-1'', ''channel-251''),
        (''stargaze-1'', ''channel-75''),
        (''cosmoshub-4'', ''channel-0''),
        (''stride-1'', ''channel-326'')] (map_of chainNameToIdMap ''osmosis'') = None"
    by (simp add: readProp_def chainNameToIdMap_def)
  show ?thesis
    using a b c
      getDenom_missing_edge [of "''mars''" _ "''neutron''" "\<lparr>denom = ''denomX'', trace = ''denomX''\<rparr>"]
      getDenom_missing_edge [of "''osmosis''" _ "''osmosis''" "\<lparr>denom = ''denomX'', trace = ''denomX''\<rparr>"]
    by simp
qed

subsection \<open>The channel table\<close>

text \<open>C9. For every ordered pair of distinct chain ids (destination, source) of the six
  registered chains, \<^verbatim>\<open>IBCMap[destination][source]\<close> is defined.\<close>

theorem IBCMap_complete:
  "length chainNameToIdMap = 6 \<and> distinct (map snd chainNameToIdMap) \<and>
   (\<forall>destination \<in> set (map snd chainNameToIdMap).
      \<forall>source \<in> set (map snd chainNameToIdMap).
        destination \<noteq> source \<longrightarrow>
          (\<exists>row channel. map_of IBCMap destination = Some row \<and> map_of row source = Some channel))"
  by (simp add: chainNameToIdMap_def IBCMap_def)

theorem IBCMap_complete_witness:
  "''osmosis-1'' \<in> set (map snd chainNameToIdMap) \<and>
   ''neutron-1'' \<in> set (map snd chainNameToIdMap) \<and>
   ''osmosis-1'' \<noteq> ''neutron-1'' \<and>
   (\<exists>row channel. map_of IBCMap ''osmosis-1'' = Some row \<and> map_of row ''neutron-1'' = Some channel)"
proof -
  have a: "''osmosis-1'' \<in> set (map snd chainNameToIdMap)"
    and b: "''neutron-1'' \<in> set (map snd chainNameToIdMap)"
    by (simp_all add: chainNameToIdMap_def)
  have c: "''osmosis-1'' \<noteq> ''neutron-1''" by simp
  note e = IBCMap_complete [THEN conjunct2, THEN conjunct2, THEN bspec, OF a, THEN bspec, OF b,
      THEN mp, OF c]
  show ?thesis
    by (intro conjI) (rule a, rule b, rule c, rule e)
qed

subsection \<open>convertAddressPrefix\<close>

text \<open>C10. For every input string \<open>a\<close>, whatever the codec makes of it,
  \<open>convertAddressPrefix a ''terra''\<close> returns the fixed literal address: the address is not
  decoded, so no decoding error can arise.\<close>

theorem convertAddressPrefix_terra:
  "convertAddressPrefix E a ''terra'' = Inr ''terra1w7mtx2g478kkhs6pgynpcjpt6aw4930q34j36v''"
  by (simp add: convertAddressPrefix_def)

subsection \<open>The traversal\<close>

text \<open>Every chain of the registry has an address prefix.\<close>

lemma chainPrefix_defined:
  "\<forall>chain \<in> set chainNames. map_of chainPrefix chain \<noteq> None"
  by (simp add: chainNames_def chainNameToIdMap_def chainPrefix_def)

lemma fold_concat_map:
  "fold f (concat (map g xs)) b = fold (\<lambda>x. fold f (g x)) xs b"
  by (induction xs arbitrary: b) simp_all

lemma DFS_fold:
  "DFS E ab d path t bal =
     (case ab (String (currentChain path)) of
        None \<Rightarrow> Inl TypeError
      | Some coins \<Rightarrow> Inr (fold (visitAt E ab d) (DFS_calls E ab path t) bal))"
proof (induction E ab d path t bal rule: DFS.induct)
  case (1 E ab d path t bal)
  show ?case
  proof (cases "ab (String (currentChain path))")
    case None
    then show ?thesis by (subst DFS.simps) simp
  next
    case (Some coins)
    have step: "(case DFS E ab d (path @ [chain]) t' b of Inl e \<Rightarrow> b | Inr b' \<Rightarrow> b') =
                fold (visitAt E ab d) (DFS_calls E ab (path @ [chain]) t') b"
      if "chain \<in> set chainNames" "chain \<notin> set (tl path) \<and> currentChain path \<noteq> Some chain"
         "getDenom E (String (currentChain path)) chain t = Inr t'" for chain t' b
    proof (cases "ab (String (currentChain (path @ [chain])))")
      case None
      then show ?thesis
        using "1.IH" [OF Some that]
        by (subst DFS_calls.simps) (simp add: visitAt_def)
    next
      case (Some a)
      then show ?thesis using "1.IH" [OF \<open>ab (String (currentChain path)) = Some coins\<close> that]
        by simp
    qed
    have "fold (\<lambda>chain b.
              if chain \<notin> set (tl path) \<and> currentChain path \<noteq> Some chain
              then (case getDenom E (String (currentChain path)) chain t of
                      Inl e \<Rightarrow> b
                    | Inr t' \<Rightarrow> (case DFS E ab d (path @ [chain]) t' b of Inl e \<Rightarrow> b | Inr b' \<Rightarrow> b'))
              else b) chainNames b0 =
          fold (\<lambda>chain. fold (visitAt E ab d)
              (if chain \<notin> set (tl path) \<and> currentChain path \<noteq> Some chain
               then (case getDenom E (String (currentChain path)) chain t of
                       Inl e \<Rightarrow> []
                     | Inr t' \<Rightarrow> DFS_calls E ab (path @ [chain]) t')
               else [])) chainNames b0" for b0
      by (rule fold_cong) (auto simp: fun_eq_iff step split: sum.splits)
    then show ?thesis
      using Some
      by (subst DFS.simps, subst DFS_calls.simps)
         (simp add: fold_concat_map visitAt_def)
  qed
qed

lemma chainNames_eq:
  "chainNames = [''neutron'', ''osmosis'', ''terra'', ''stargaze'', ''cosmoshub'', ''stride'']"
  by (simp add: chainNames_def chainNameToIdMap_def)

lemma gt0_truthy: "gt0 n \<Longrightarrow> truthy n"
  by (cases n) auto

lemma DFS_calls_cases:
  assumes "(p, t) \<in> set (DFS_calls E ab path t0)"
  obtains (root) "p = path" "t = t0"
  | (child) coins chain t' where "ab (String (currentChain path)) = Some coins"
      "chain \<in> set chainNames" "chain \<notin> set (tl path)" "currentChain path \<noteq> Some chain"
      "getDenom E (String (currentChain path)) chain t0 = Inr t'"
      "(p, t) \<in> set (DFS_calls E ab (path @ [chain]) t')"
proof -
  from assms have "(p, t) \<in> set ((path, t0) #
     (case ab (String (currentChain path)) of
        None \<Rightarrow> []
      | Some coins \<Rightarrow>
          concat (map
            (\<lambda>chain.
               if chain \<notin> set (tl path) \<and> currentChain path \<noteq> Some chain
               then (case getDenom E (String (currentChain path)) chain t0 of
                       Inl e \<Rightarrow> []
                     | Inr t \<Rightarrow> DFS_calls E ab (path @ [chain]) t)
               else [])
            chainNames)))"
    by (subst (asm) DFS_calls.simps)
  then show thesis
    using root child by (auto split: option.splits if_splits sum.splits) metis
qed

lemma DFS_calls_invariant:
  assumes "(p, t) \<in> set (DFS_calls E ab path t0)"
    and "I path t0"
    and "\<And>path t chain t'. I path t \<Longrightarrow> chain \<in> set chainNames \<Longrightarrow> chain \<notin> set (tl path) \<Longrightarrow>
           currentChain path \<noteq> Some chain \<Longrightarrow>
           getDenom E (String (currentChain path)) chain t = Inr t' \<Longrightarrow> I (path @ [chain]) t'"
  shows "I p t"
  using assms
proof (induction E ab path t0 rule: DFS_calls.induct)
  case (1 E ab path t0)
  from "1.prems"(1) show ?case
  proof (cases rule: DFS_calls_cases)
    case root
    with "1.prems"(2) show ?thesis by simp
  next
    case (child coins chain t')
    have "I (path @ [chain]) t'"
      using "1.prems"(3) [OF "1.prems"(2) child(2,3,4,5)] .
    then show ?thesis
      using "1.IH" [OF child(1,2) _ child(5,6)] child(3,4) "1.prems"(3) by blast
  qed
qed

lemma DFS_calls_shape:
  assumes "(p, t) \<in> set (DFS_calls E ab path t0)"
    and "path \<noteq> []" and "distinct (tl path)" and "set (tl path) \<subseteq> set chainNames"
  shows "p \<noteq> [] \<and> hd p = hd path \<and> distinct (tl p) \<and> set (tl p) \<subseteq> set chainNames"
proof (rule DFS_calls_invariant [OF assms(1),
    where I = "\<lambda>p t. p \<noteq> [] \<and> hd p = hd path \<and> distinct (tl p) \<and> set (tl p) \<subseteq> set chainNames"])
  show "path \<noteq> [] \<and> hd path = hd path \<and> distinct (tl path) \<and> set (tl path) \<subseteq> set chainNames"
    using assms by simp
next
  fix q :: "string list" and t chain t'
  assume "q \<noteq> [] \<and> hd q = hd path \<and> distinct (tl q) \<and> set (tl q) \<subseteq> set chainNames"
    and "chain \<in> set chainNames" and "chain \<notin> set (tl q)"
  then show "q @ [chain] \<noteq> [] \<and> hd (q @ [chain]) = hd path \<and> distinct (tl (q @ [chain])) \<and>
             set (tl (q @ [chain])) \<subseteq> set chainNames"
    by (cases q) auto
qed

lemma DFS_calls_length:
  assumes "(p, t) \<in> set (DFS_calls E ab [origin] t0)"
  shows "length p \<le> length chainNames + 1"
proof -
  from DFS_calls_shape [OF assms]
  have p: "p \<noteq> []" "distinct (tl p)" "set (tl p) \<subseteq> set chainNames" by simp_all
  have "length (tl p) = card (set (tl p))" using p(2) by (simp add: distinct_card)
  also have "\<dots> \<le> card (set chainNames)" using p(3) by (simp add: card_mono)
  also have "\<dots> \<le> length chainNames" by (rule card_length)
  finally show ?thesis using p(1) by (cases p) simp_all
qed

lemma visitAt_recordsOf:
  "recordsOf (visitAt E ab d call b) c = recordsOf b c @ pushed E ab d c call"
  by (auto simp: visitAt_def visit_def pushed_def recordsOf_def pushRecord_def Let_def gt0_truthy
        split: option.splits)

lemma fold_visitAt_recordsOf:
  "recordsOf (fold (visitAt E ab d) calls b) c = recordsOf b c @ concat (map (pushed E ab d c) calls)"
  by (induction calls arbitrary: b) (simp_all add: visitAt_recordsOf)

lemma visitAt_nonempty:
  "b c = Some rs \<Longrightarrow> \<exists>rs'. visitAt E ab d call b c = Some rs'"
  by (auto simp: visitAt_def visit_def pushRecord_def Let_def split: option.splits)

lemma visitAt_lists:
  assumes "\<And>c rs. b c = Some rs \<Longrightarrow> rs \<noteq> []"
      and "visitAt E ab d call b c = Some rs"
  shows "rs \<noteq> []"
  using assms
  by (auto simp: visitAt_def visit_def pushRecord_def Let_def split: option.splits if_splits)

lemma fold_visitAt_lists:
  assumes "\<And>c rs. b c = Some rs \<Longrightarrow> rs \<noteq> []"
      and "fold (visitAt E ab d) calls b c = Some rs"
  shows "rs \<noteq> []"
  using assms
proof (induction calls arbitrary: b)
  case Nil
  then show ?case by simp
next
  case (Cons call calls)
  show ?case
    by (rule Cons.IH [of "visitAt E ab d call b"])
       (use Cons.prems visitAt_lists [of b E ab d call] in auto)
qed

lemma fetchAll_keys: "fetchAll E a cs = Inr snaps \<Longrightarrow> map fst snaps = cs"
  by (induction cs arbitrary: snaps) (auto split: option.splits sum.splits)

lemma fetchAll_defined:
  assumes "fetchAll E a cs = Inr snaps" and "c \<in> set cs"
  shows "\<exists>coins. map_of snaps c = Some coins"
proof -
  have "c \<in> fst ` set snaps" using fetchAll_keys [OF assms(1)] assms(2)
    by (metis set_map)
  then show ?thesis by (metis map_of_eq_None_iff not_Some_eq)
qed

lemma trackBalances_fold:
  assumes "fetchAll E a chainNames = Inr snaps"
  shows "trackBalances E d a =
           Inr (fold (visitAt E (map_of snaps) d)
                  (DFS_calls E (map_of snaps) [''neutron''] \<lparr>denom = d, trace = d\<rparr>) Map.empty)"
proof -
  obtain coins where "map_of snaps ''neutron'' = Some coins"
    using fetchAll_defined [OF assms, of "''neutron''"] by (auto simp: chainNames_eq)
  then show ?thesis
    using assms by (simp add: trackBalances_def DFS_fold currentChain_def)
qed

lemma trackBalances_Inr:
  assumes "trackBalances E d a = Inr bal"
  obtains snaps where "fetchAll E a chainNames = Inr snaps"
    and "bal = fold (visitAt E (map_of snaps) d)
                  (DFS_calls E (map_of snaps) [''neutron''] \<lparr>denom = d, trace = d\<rparr>) Map.empty"
proof (cases "fetchAll E a chainNames")
  case (Inl e)
  then show ?thesis using assms by (simp add: trackBalances_def)
next
  case (Inr snaps)
  then show ?thesis using assms that trackBalances_fold [OF Inr, of d] by simp
qed

lemma trackBalances_record:
  assumes "trackBalances E d a = Inr bal" and "bal c = Some rs" and "r \<in> set rs"
  obtains snaps coins t where "fetchAll E a chainNames = Inr snaps"
    and "(record_path r, t) \<in> set (DFS_calls E (map_of snaps) [''neutron''] \<lparr>denom = d, trace = d\<rparr>)"
    and "record_path r \<noteq> []" and "last (record_path r) = c"
    and "map_of snaps c = Some coins" and "gt0 (lookupBalance E coins t)"
    and "r = \<lparr>record_denom = denom t, originDenom = d, balance = lookupBalance E coins t,
              record_path = record_path r\<rparr>"
proof -
  from assms(1) obtain snaps where snaps: "fetchAll E a chainNames = Inr snaps"
    and bal: "bal = fold (visitAt E (map_of snaps) d)
                  (DFS_calls E (map_of snaps) [''neutron''] \<lparr>denom = d, trace = d\<rparr>) Map.empty"
    by (rule trackBalances_Inr)
  have "recordsOf bal c = rs" using assms(2) by (simp add: recordsOf_def)
  moreover have "recordsOf Map.empty c = []" by (simp add: recordsOf_def)
  ultimately have "rs = concat (map (pushed E (map_of snaps) d c)
               (DFS_calls E (map_of snaps) [''neutron''] \<lparr>denom = d, trace = d\<rparr>))"
    by (simp only: bal fold_visitAt_recordsOf append_Nil)
  then have "r \<in> set (concat (map (pushed E (map_of snaps) d c)
               (DFS_calls E (map_of snaps) [''neutron''] \<lparr>denom = d, trace = d\<rparr>)))"
    using assms(3) by simp
  then obtain call where call: "call \<in> set (DFS_calls E (map_of snaps) [''neutron''] \<lparr>denom = d, trace = d\<rparr>)"
    and r: "r \<in> set (pushed E (map_of snaps) d c call)"
    by auto
  obtain p t where pt: "call = (p, t)" by (cases call)
  have shape: "p \<noteq> []" using DFS_calls_shape [OF call [unfolded pt]] by simp
  from r obtain coins where "map_of snaps (last p) = Some coins" "last p = c"
      "gt0 (lookupBalance E coins t)"
      "r = \<lparr>record_denom = denom t, originDenom = d, balance = lookupBalance E coins t,
              record_path = p\<rparr>"
    using shape
    by (auto simp: pushed_def pt currentChain_def split: option.splits if_splits) metis
  then show ?thesis
    using that [of snaps t coins] snaps call shape by (simp add: pt)
qed

lemma remaining_less:
  assumes "chain \<in> set chainNames" and "chain \<notin> set (tl path)"
  shows "remaining (path @ [chain]) < remaining path"
proof -
  have "card (set chainNames - set (tl path) - {chain}) < card (set chainNames - set (tl path))"
    using assms by (intro card_Diff1_less) simp_all
  moreover have "set chainNames - set (tl (path @ [chain])) =
      (if path = [] then set chainNames - set (tl path)
       else set chainNames - set (tl path) - {chain})"
    by (cases path) auto
  ultimately show ?thesis
    by (simp add: remaining_def)
qed

lemma DFS_rel_step:
  assumes "DFS_rel (E', ab', d', path', t', b') (E, ab, d, path, t, b)"
  shows "\<exists>chain. path' = path @ [chain] \<and> chain \<in> set chainNames \<and> chain \<notin> set (tl path) \<and>
           currentChain path \<noteq> Some chain"
  using assms by (cases rule: DFS_rel.cases) auto

lemma DFS_dom_all: "DFS_dom (E, ab, d, path, t, b)"
proof (induction "remaining path" arbitrary: E ab d path t b rule: less_induct)
  case less
  show ?case
  proof (rule accpI)
    fix y
    assume y: "DFS_rel y (E, ab, d, path, t, b)"
    obtain E' ab' d' path' t' b' where y_eq: "y = (E', ab', d', path', t', b')"
      by (cases y) auto
    from DFS_rel_step [OF y [unfolded y_eq]]
    have "remaining path' < remaining path"
      by (auto intro: remaining_less)
    then show "DFS_dom y"
      unfolding y_eq by (rule less)
  qed
qed

lemma count_list_distinct: "distinct xs \<Longrightarrow> count_list xs c \<le> 1"
  by (induction xs) auto

lemma count_list_path:
  assumes "p \<noteq> []" and "hd p = origin" and "distinct (tl p)"
  shows "count_list p c \<le> (if c = origin then 2 else 1)"
proof -
  obtain q where p: "p = origin # q" using assms(1,2) by (cases p) auto
  then have "distinct q" using assms(3) by simp
  from count_list_distinct [OF this, of c] show ?thesis by (auto simp: p)
qed

lemma visitAt_noop:
  assumes "\<And>coins. ab (String (currentChain (fst call))) = Some coins \<Longrightarrow>
             \<not> gt0 (lookupBalance E coins (snd call))"
  shows "visitAt E ab d call b = b"
  using assms by (auto simp: visitAt_def visit_def Let_def split: option.splits)

lemma fold_visitAt_noop:
  assumes "\<And>call coins. call \<in> set calls \<Longrightarrow> ab (String (currentChain (fst call))) = Some coins \<Longrightarrow>
             \<not> gt0 (lookupBalance E coins (snd call))"
  shows "fold (visitAt E ab d) calls b = b"
  using assms
proof (induction calls arbitrary: b)
  case Nil
  show ?case by simp
next
  case (Cons call calls)
  have "visitAt E ab d call b = b"
    by (rule visitAt_noop) (use Cons.prems in auto)
  then show ?case using Cons by simp
qed

lemma DFS_calls_Cons: "DFS_calls E ab path t = (path, t) # tl (DFS_calls E ab path t)"
proof -
  have "\<exists>rest. DFS_calls E ab path t = (path, t) # rest"
    by (subst DFS_calls.simps) blast
  then show ?thesis by auto
qed

lemma tl_DFS_calls_subset: "set (tl (DFS_calls E ab path t)) \<subseteq> set (DFS_calls E ab path t)"
  by (subst (2) DFS_calls_Cons) auto

lemma origin_only:
  assumes fetch: "fetchAll E account chainNames = Inr snaps"
      and coins: "map_of snaps ''neutron'' = Some coins"
      and held: "gt0 (lookupBalance E coins \<lparr>denom = d, trace = d\<rparr>)"
      and others: "\<forall>(p, t) \<in> set (tl (DFS_calls E (map_of snaps) [''neutron''] \<lparr>denom = d, trace = d\<rparr>)).
                    \<forall>coins'. map_of snaps (last p) = Some coins' \<longrightarrow> \<not> gt0 (lookupBalance E coins' t)"
  shows "trackBalances E d account =
           Inr [''neutron'' \<mapsto>
                 [\<lparr>record_denom = d, originDenom = d,
                   balance = lookupBalance E coins \<lparr>denom = d, trace = d\<rparr>,
                   record_path = [''neutron'']\<rparr>]]"
proof -
  let ?ab = "map_of snaps" and ?t0 = "\<lparr>denom = d, trace = d\<rparr>"
  let ?rest = "tl (DFS_calls E ?ab [''neutron''] ?t0)"
  have noop: "fold (visitAt E ?ab d) ?rest b = b" for b
  proof (rule fold_visitAt_noop)
    fix call coins'
    assume call: "call \<in> set ?rest" and c: "?ab (String (currentChain (fst call))) = Some coins'"
    obtain p t where pt: "call = (p, t)" by (cases call)
    have "(p, t) \<in> set (DFS_calls E ?ab [''neutron''] ?t0)"
      using call tl_DFS_calls_subset pt by blast
    from DFS_calls_shape [OF this] have "p \<noteq> []" by simp
    then have "?ab (last p) = Some coins'" using c by (simp add: pt currentChain_def)
    then show "\<not> gt0 (lookupBalance E coins' (snd call))"
      using others call pt by auto
  qed
  have "trackBalances E d account =
          Inr (fold (visitAt E ?ab d) ((([''neutron''], ?t0)) # ?rest) Map.empty)"
    using trackBalances_fold [OF fetch, of d] DFS_calls_Cons [of E ?ab "[''neutron'']" ?t0]
    by simp
  also have "\<dots> = Inr (visitAt E ?ab d ([''neutron''], ?t0) Map.empty)"
    by (simp add: noop)
  also have "visitAt E ?ab d ([''neutron''], ?t0) Map.empty =
     [''neutron'' \<mapsto>
                 [\<lparr>record_denom = d, originDenom = d,
                   balance = lookupBalance E coins \<lparr>denom = d, trace = d\<rparr>,
                   record_path = [''neutron'']\<rparr>]]"
    using coins held
    by (simp add: visitAt_def visit_def currentChain_def pushRecord_def gt0_truthy)
  finally show ?thesis .
qed

lemma example_fetchAll:
  "fetchAll (exampleExternals nc) account chainNames = Inr (exampleSnapshots nc)"
  by (simp add: chainNames_eq chainPrefix_def convertAddressPrefix_def getAllBalances_def
        RpcUrls_def exampleExternals_def exampleSnapshots_def)

lemma example_snapshot_cases:
  "map_of (exampleSnapshots nc) c = Some coins \<Longrightarrow> coins = nc \<or> coins = []"
  by (auto simp: exampleSnapshots_def split: if_splits)

lemma getDenom_ibc: "getDenom E s c t = Inr t' \<Longrightarrow> \<exists>h. denom t' = ''ibc/'' @ h"
  by (auto simp: getDenom_def Let_def split: option.splits)

lemma tl_DFS_calls:
  "tl (DFS_calls E ab path t0) =
     (case ab (String (currentChain path)) of
        None \<Rightarrow> []
      | Some coins \<Rightarrow>
          concat (map
            (\<lambda>chain.
               if chain \<notin> set (tl path) \<and> currentChain path \<noteq> Some chain
               then (case getDenom E (String (currentChain path)) chain t0 of
                       Inl e \<Rightarrow> []
                     | Inr t \<Rightarrow> DFS_calls E ab (path @ [chain]) t)
               else [])
            chainNames))"
  by (subst DFS_calls.simps) simp

lemma DFS_calls_derived:
  assumes "(p, t) \<in> set (tl (DFS_calls E ab path t0))"
  shows "\<exists>h. denom t = ''ibc/'' @ h"
proof -
  from assms obtain chain t' where t': "getDenom E (String (currentChain path)) chain t0 = Inr t'"
    and sub: "(p, t) \<in> set (DFS_calls E ab (path @ [chain]) t')"
    unfolding tl_DFS_calls
    by (auto split: option.splits if_splits sum.splits) metis
  show ?thesis
    by (rule DFS_calls_invariant [OF sub, where I = "\<lambda>p t. \<exists>h. denom t = ''ibc/'' @ h"])
       (use t' in \<open>auto dest: getDenom_ibc\<close>)
qed

lemma lookupBalance_derived:
  assumes "\<forall>coin \<in> set coins. take 4 (coin_denom coin) \<noteq> ''ibc/''"
      and "denom t = ''ibc/'' @ h"
  shows "lookupBalance E coins t = parseFloat E ''0''"
proof -
  have "find (\<lambda>accountBalance. coin_denom accountBalance = denom t) coins = None"
    using assms by (auto simp: find_None_iff)
  then show ?thesis by (simp add: lookupBalance_def)
qed

lemma example_others:
  assumes "\<forall>coin \<in> set nc. take 4 (coin_denom coin) \<noteq> ''ibc/''"
      and "(p, t) \<in> set (tl (DFS_calls (exampleExternals nc) (map_of (exampleSnapshots nc)) path t0))"
      and "map_of (exampleSnapshots nc) c = Some coins"
  shows "\<not> gt0 (lookupBalance (exampleExternals nc) coins t)"
proof -
  obtain h where h: "denom t = ''ibc/'' @ h"
    using DFS_calls_derived [OF assms(2)] by blast
  have "\<forall>coin \<in> set coins. take 4 (coin_denom coin) \<noteq> ''ibc/''"
    using example_snapshot_cases [OF assms(3)] assms(1) by auto
  from lookupBalance_derived [OF this h]
  show ?thesis by (simp add: exampleExternals_def)
qed

lemma example_held:
  "trackBalances (exampleExternals [\<lparr>coin_denom = ''untrn'', amount = ''5''\<rparr>]) ''untrn'' account =
     Inr [''neutron'' \<mapsto>
           [\<lparr>record_denom = ''untrn'', originDenom = ''untrn'', balance = Finite 5,
             record_path = [''neutron'']\<rparr>]]"
proof -
  let ?nc = "[\<lparr>coin_denom = ''untrn'', amount = ''5''\<rparr>]"
  have b: "lookupBalance (exampleExternals ?nc) ?nc \<lparr>denom = ''untrn'', trace = ''untrn''\<rparr> = Finite 5"
    by (simp add: lookupBalance_def exampleExternals_def)
  have "trackBalances (exampleExternals ?nc) ''untrn'' account =
     Inr [''neutron'' \<mapsto>
           [\<lparr>record_denom = ''untrn'', originDenom = ''untrn'',
             balance = lookupBalance (exampleExternals ?nc) ?nc \<lparr>denom = ''untrn'', trace = ''untrn''\<rparr>,
             record_path = [''neutron'']\<rparr>]]"
  proof (rule origin_only [OF example_fetchAll])
    show "map_of (exampleSnapshots ?nc) ''neutron'' = Some ?nc"
      by (simp add: exampleSnapshots_def)
    show "gt0 (lookupBalance (exampleExternals ?nc) ?nc \<lparr>denom = ''untrn'', trace = ''untrn''\<rparr>)"
      by (simp add: b)
    show "\<forall>(p, t) \<in> set (tl (DFS_calls (exampleExternals ?nc) (map_of (exampleSnapshots ?nc))
                                [''neutron''] \<lparr>denom = ''untrn'', trace = ''untrn''\<rparr>)).
            \<forall>coins'. map_of (exampleSnapshots ?nc) (last p) = Some coins' \<longrightarrow>
               \<not> gt0 (lookupBalance (exampleExternals ?nc) coins' t)"
      using example_others [of ?nc] by auto
  qed
  then show ?thesis by (simp only: b)
qed

lemma pushed_spec_appended:
  assumes "fst call \<noteq> []" and "\<not> gt0 (parseFloat E ''0'')"
  shows "pushed E ab d c call = (case spec_appended E ab d c call of None \<Rightarrow> [] | Some r \<Rightarrow> [r])"
  using assms
  by (auto simp: pushed_def spec_appended_def currentChain_def lookupBalance_def
        split: option.splits)

lemma map_filter_concat:
  "List.map_filter f xs = concat (map (\<lambda>x. case f x of None \<Rightarrow> [] | Some y \<Rightarrow> [y]) xs)"
  by (induction xs) (simp_all add: List.map_filter_simps split: option.splits)

lemma pushed_map_filter:
  assumes "\<And>call. call \<in> set calls \<Longrightarrow> fst call \<noteq> []" and "\<not> gt0 (parseFloat E ''0'')"
  shows "concat (map (pushed E ab d c) calls) = List.map_filter (spec_appended E ab d c) calls"
proof -
  have "map (pushed E ab d c) calls =
        map (\<lambda>call. case spec_appended E ab d c call of None \<Rightarrow> [] | Some r \<Rightarrow> [r]) calls"
    by (rule map_cong) (simp_all add: pushed_spec_appended assms)
  then show ?thesis
    unfolding map_filter_concat by (rule arg_cong [where f = concat])
qed

lemma none_held:
  assumes fetch: "fetchAll E account chainNames = Inr snaps"
      and none: "\<forall>(p, t) \<in> set (DFS_calls E (map_of snaps) [''neutron''] \<lparr>denom = d, trace = d\<rparr>).
                    \<forall>coins'. map_of snaps (last p) = Some coins' \<longrightarrow> \<not> gt0 (lookupBalance E coins' t)"
  shows "trackBalances E d account = Inr Map.empty"
proof -
  let ?ab = "map_of snaps" and ?t0 = "\<lparr>denom = d, trace = d\<rparr>"
  have "fold (visitAt E ?ab d) (DFS_calls E ?ab [''neutron''] ?t0) Map.empty = Map.empty"
  proof (rule fold_visitAt_noop)
    fix call coins'
    assume call: "call \<in> set (DFS_calls E ?ab [''neutron''] ?t0)"
      and c: "?ab (String (currentChain (fst call))) = Some coins'"
    obtain p t where pt: "call = (p, t)" by (cases call)
    from DFS_calls_shape [OF call [unfolded pt]] have "p \<noteq> []" by simp
    then have "?ab (last p) = Some coins'" using c by (simp add: pt currentChain_def)
    then show "\<not> gt0 (lookupBalance E coins' (snd call))"
      using none call pt by auto
  qed
  then show ?thesis using trackBalances_fold [OF fetch, of d] by simp
qed

lemma example_infinity:
  "trackBalances (exampleExternals [\<lparr>coin_denom = ''untrn'', amount = ''Infinity''\<rparr>]) ''untrn'' account =
     Inr [''neutron'' \<mapsto>
           [\<lparr>record_denom = ''untrn'', originDenom = ''untrn'', balance = PosInfinity,
             record_path = [''neutron'']\<rparr>]]"
proof -
  let ?nc = "[\<lparr>coin_denom = ''untrn'', amount = ''Infinity''\<rparr>]"
  have b: "lookupBalance (exampleExternals ?nc) ?nc \<lparr>denom = ''untrn'', trace = ''untrn''\<rparr> = PosInfinity"
    by (simp add: lookupBalance_def exampleExternals_def)
  have "trackBalances (exampleExternals ?nc) ''untrn'' account =
     Inr [''neutron'' \<mapsto>
           [\<lparr>record_denom = ''untrn'', originDenom = ''untrn'',
             balance = lookupBalance (exampleExternals ?nc) ?nc \<lparr>denom = ''untrn'', trace = ''untrn''\<rparr>,
             record_path = [''neutron'']\<rparr>]]"
  proof (rule origin_only [OF example_fetchAll])
    show "map_of (exampleSnapshots ?nc) ''neutron'' = Some ?nc"
      by (simp add: exampleSnapshots_def)
    show "gt0 (lookupBalance (exampleExternals ?nc) ?nc \<lparr>denom = ''untrn'', trace = ''untrn''\<rparr>)"
      by (simp add: b)
    show "\<forall>(p, t) \<in> set (tl (DFS_calls (exampleExternals ?nc) (map_of (exampleSnapshots ?nc))
                                [''neutron''] \<lparr>denom = ''untrn'', trace = ''untrn''\<rparr>)).
            \<forall>coins'. map_of (exampleSnapshots ?nc) (last p) = Some coins' \<longrightarrow>
               \<not> gt0 (lookupBalance (exampleExternals ?nc) coins' t)"
      using example_others [of ?nc] by auto
  qed
  then show ?thesis by (simp only: b)
qed

lemma example_second_entry:
  "trackBalances (exampleExternals [\<lparr>coin_denom = ''untrn'', amount = ''0''\<rparr>,
                                    \<lparr>coin_denom = ''untrn'', amount = ''5''\<rparr>]) ''untrn'' account =
     Inr Map.empty"
proof -
  let ?nc = "[\<lparr>coin_denom = ''untrn'', amount = ''0''\<rparr>, \<lparr>coin_denom = ''untrn'', amount = ''5''\<rparr>]"
  let ?E = "exampleExternals ?nc" and ?t0 = "\<lparr>denom = ''untrn'', trace = ''untrn''\<rparr>"
  have root: "\<not> gt0 (lookupBalance ?E coins' ?t0)"
    if "map_of (exampleSnapshots ?nc) ''neutron'' = Some coins'" for coins'
    using that by (auto simp: exampleSnapshots_def lookupBalance_def exampleExternals_def)
  have "\<not> gt0 (lookupBalance ?E coins' t)"
    if "(p, t) \<in> set (DFS_calls ?E (map_of (exampleSnapshots ?nc)) [''neutron''] ?t0)"
       "map_of (exampleSnapshots ?nc) (last p) = Some coins'" for p t coins'
  proof -
    from that(1) have "(p, t) = ([''neutron''], ?t0) \<or>
        (p, t) \<in> set (tl (DFS_calls ?E (map_of (exampleSnapshots ?nc)) [''neutron''] ?t0))"
      by (subst (asm) DFS_calls_Cons) simp
    then show ?thesis
      using root that(2) example_others [of ?nc p t "[''neutron'']" ?t0 "last p" coins'] by auto
  qed
  then show ?thesis
    by (intro none_held [OF example_fetchAll]) blast
qed

lemma getDenom_neutron_osmosis:
  "getDenom E ''neutron'' ''osmosis'' \<lparr>denom = d, trace = d\<rparr> =
     Inr \<lparr>denom = ''ibc/'' @ toUpperCase (hash E (''transfer/channel-874/'' @ d)),
          trace = ''transfer/channel-874/'' @ d\<rparr>"
  by (simp add: getDenom_def readProp_def Let_def chainId_neutron chainId_osmosis row_osmosis)

text \<open>The paths of the calls are pairwise different, so a call is found at one place of
  the traversal; and an example in which the only record is pushed two hops from the
  origin, back on the origin.\<close>

lemma channel_length:
  assumes "map_of IBCMap k = Some row" and "map_of row k' = Some c"
  shows "9 \<le> length c"
  using assms by (auto simp: IBCMap_def split: if_splits)

lemma getDenom_trace:
  assumes "getDenom E s c t = Inr t'"
  shows "length (trace t) + 19 \<le> length (trace t')"
    and "denom t' = ''ibc/'' @ toUpperCase (hash E (trace t'))"
proof -
  from assms obtain row where row: "map_of IBCMap (String (map_of chainNameToIdMap c)) = Some row"
    and t': "t' = \<lparr>denom = ''ibc/'' @ toUpperCase (hash E (''transfer/'' @ String (map_of row (String (map_of chainNameToIdMap s))) @ ''/'' @ trace t)),
                 trace = ''transfer/'' @ String (map_of row (String (map_of chainNameToIdMap s))) @ ''/'' @ trace t\<rparr>"
    by (auto simp: getDenom_def readProp_def Let_def split: option.splits)
  have "9 \<le> length (String (map_of row (String (map_of chainNameToIdMap s))))"
  proof (cases "map_of row (String (map_of chainNameToIdMap s))")
    case None
    then show ?thesis by simp
  next
    case (Some ch)
    then show ?thesis using channel_length [OF row Some] by simp
  qed
  then show "length (trace t) + 19 \<le> length (trace t')" by (simp add: t')
  show "denom t' = ''ibc/'' @ toUpperCase (hash E (trace t'))" by (simp add: t')
qed

lemma DFS_calls_prefix:
  assumes "(p, t) \<in> set (DFS_calls E ab path t0)"
  shows "length path \<le> length p \<and> take (length path) p = path"
  by (rule DFS_calls_invariant [OF assms,
        where I = "\<lambda>q t. length path \<le> length q \<and> take (length path) q = path"])
     simp_all

lemma DFS_calls_childI:
  assumes "ab (String (currentChain path)) = Some coins"
      and "chain \<in> set chainNames" and "chain \<notin> set (tl path)"
      and "currentChain path \<noteq> Some chain"
      and "getDenom E (String (currentChain path)) chain t0 = Inr t'"
      and "call \<in> set (DFS_calls E ab (path @ [chain]) t')"
  shows "call \<in> set (DFS_calls E ab path t0)"
proof -
  have "call \<in> set (tl (DFS_calls E ab path t0))"
    unfolding tl_DFS_calls using assms by (auto intro!: bexI [of _ chain])
  then show ?thesis using tl_DFS_calls_subset by blast
qed

lemma DFS_calls_tl_cases:
  assumes "(p, t) \<in> set (tl (DFS_calls E ab path t0))"
  obtains coins chain t' where "ab (String (currentChain path)) = Some coins"
      "chain \<in> set chainNames" "chain \<notin> set (tl path)" "currentChain path \<noteq> Some chain"
      "getDenom E (String (currentChain path)) chain t0 = Inr t'"
      "(p, t) \<in> set (DFS_calls E ab (path @ [chain]) t')"
  using assms unfolding tl_DFS_calls
  by (auto split: option.splits if_splits sum.splits) metis

lemma distinct_concat_map:
  assumes "distinct cs" and "\<And>c. c \<in> set cs \<Longrightarrow> distinct (f c)"
      and "\<And>c c'. c \<in> set cs \<Longrightarrow> c' \<in> set cs \<Longrightarrow> c \<noteq> c' \<Longrightarrow> set (f c) \<inter> set (f c') = {}"
  shows "distinct (concat (map f cs))"
  using assms by (induction cs) auto

lemma distinct_chainNames: "distinct chainNames"
  by (simp add: chainNames_eq)

lemma DFS_calls_distinct: "distinct (map fst (DFS_calls E ab path t0))"
proof (induction E ab path t0 rule: DFS_calls.induct)
  case (1 E ab path t0)
  define g where "g = (\<lambda>chain.
      if chain \<notin> set (tl path) \<and> currentChain path \<noteq> Some chain
      then (case getDenom E (String (currentChain path)) chain t0 of
              Inl e \<Rightarrow> []
            | Inr t \<Rightarrow> DFS_calls E ab (path @ [chain]) t)
      else [])"
  show ?case
  proof (cases "ab (String (currentChain path))")
    case None
    then show ?thesis by (subst DFS_calls.simps) simp
  next
    case (Some coins)
    have pre: "length path < length q \<and> take (Suc (length path)) q = path @ [chain]"
      if "q \<in> set (map fst (g chain))" for q chain
    proof -
      from that obtain y where y: "y \<in> set (g chain)" and q: "q = fst y" by auto
      have "\<exists>t'. y \<in> set (DFS_calls E ab (path @ [chain]) t')"
      proof (cases "getDenom E (String (currentChain path)) chain t0")
        case (Inl e)
        then show ?thesis using y by (simp only: g_def sum.case if_cancel list.set empty_iff)
      next
        case (Inr x)
        then have "y \<in> set (DFS_calls E ab (path @ [chain]) x)"
          using y by (cases "chain \<notin> set (tl path) \<and> currentChain path \<noteq> Some chain")
                     (simp_all only: g_def sum.case if_True if_False list.set empty_iff simp_thms)
        then show ?thesis by (rule exI)
      qed
      then obtain t' where "y \<in> set (DFS_calls E ab (path @ [chain]) t')" by (rule exE)
      then have "(q, snd y) \<in> set (DFS_calls E ab (path @ [chain]) t')" by (simp add: q)
      from DFS_calls_prefix [OF this] show ?thesis by simp
    qed
    have each: "distinct (map fst (g chain))" if "chain \<in> set chainNames" for chain
      using "1.IH" [OF Some that] by (auto simp: g_def split: sum.splits)
    have disj: "set (map fst (g c)) \<inter> set (map fst (g c')) = {}" if "c \<noteq> c'" for c c'
    proof -
      have False if "q \<in> set (map fst (g c))" "q \<in> set (map fst (g c'))" for q
        using pre [OF that(1)] pre [OF that(2)] \<open>c \<noteq> c'\<close> by simp
      then show ?thesis by blast
    qed
    have "distinct (concat (map (\<lambda>chain. map fst (g chain)) chainNames))"
      by (rule distinct_concat_map) (use distinct_chainNames each disj in auto)
    moreover have "path \<notin> set (concat (map (\<lambda>chain. map fst (g chain)) chainNames))"
    proof
      assume "path \<in> set (concat (map (\<lambda>chain. map fst (g chain)) chainNames))"
      then obtain chain where "path \<in> set (map fst (g chain))" by auto
      from pre [OF this] show False by simp
    qed
    moreover have "DFS_calls E ab path t0 = (path, t0) # concat (map g chainNames)"
      using Some by (subst DFS_calls.simps) (simp add: g_def)
    ultimately show ?thesis
      by (simp add: map_concat comp_def)
  qed
qed

lemma fold_visitAt_once:
  assumes "distinct (map fst calls)" and "call \<in> set calls"
    and "\<And>c coins. c \<in> set calls \<Longrightarrow> fst c \<noteq> fst call \<Longrightarrow>
           ab (String (currentChain (fst c))) = Some coins \<Longrightarrow>
           \<not> gt0 (lookupBalance E coins (snd c))"
  shows "fold (visitAt E ab d) calls b = visitAt E ab d call b"
proof -
  from assms(2) obtain xs ys where calls: "calls = xs @ call # ys"
    by (auto dest: split_list)
  have other: "fst c \<noteq> fst call" if "c \<in> set xs \<union> set ys" for c
    using assms(1) that unfolding calls by (auto simp: image_iff)
  have xs: "fold (visitAt E ab d) xs b' = b'" for b'
    by (rule fold_visitAt_noop) (use other assms(3) calls in auto)
  have ys: "fold (visitAt E ab d) ys b' = b'" for b'
    by (rule fold_visitAt_noop) (use other assms(3) calls in auto)
  show ?thesis by (simp add: calls xs ys)
qed

lemma DFS_calls_levels:
  assumes "(p, t) \<in> set (DFS_calls E ab [origin] t0)"
  obtains (root) "p = [origin]" "t = t0"
  | (one) c1 where "c1 \<noteq> origin" "p = [origin, c1]"
  | (two) c1 c2 t1 where "c1 \<noteq> origin" "c1 \<in> set chainNames"
      "getDenom E origin c1 t0 = Inr t1" "getDenom E c1 c2 t1 = Inr t"
      "p = [origin, c1, c2]"
  | (deep) "4 \<le> length p"
proof -
  from assms show thesis
  proof (cases rule: DFS_calls_cases)
    case root
    then show ?thesis using that(1) by simp
  next
    case (child coins c1 t1)
    have c1: "c1 \<noteq> origin" "getDenom E origin c1 t0 = Inr t1"
      using child(4,5) by (simp_all add: currentChain_def)
    from child(6) have "(p, t) \<in> set (DFS_calls E ab [origin, c1] t1)" by simp
    then show ?thesis
    proof (cases rule: DFS_calls_cases)
      case root
      then show ?thesis using that(2) c1 by simp
    next
      case (child coins' c2 t2)
      have c2: "getDenom E c1 c2 t1 = Inr t2"
        using child(5) by (simp add: currentChain_def)
      from child(6) have sub: "(p, t) \<in> set (DFS_calls E ab [origin, c1, c2] t2)" by simp
      then show ?thesis
      proof (cases rule: DFS_calls_cases)
        case root
        then show ?thesis using that(3) c1 c2 \<open>c1 \<in> set chainNames\<close> by simp
      next
        case (child coins'' c3 t3)
        from DFS_calls_prefix [OF child(6)] have "4 \<le> length p" by simp
        then show ?thesis by (rule that(4))
      qed
    qed
  qed
qed

lemma length_toHex: "length (toHex data) = 2 * length data"
  by (induction data) (simp_all add: toHex_def)

lemma example_hash_length:
  "length (toUpperCase (hash (exampleExternals nc) s)) = 2 * length s"
  by (simp add: toUpperCase_def hash_def length_toHex exampleExternals_def)

lemma DFS_calls_tl_denom:
  assumes "(p, t) \<in> set (tl (DFS_calls E ab path t0))"
  shows "denom t = ''ibc/'' @ toUpperCase (hash E (trace t))"
proof -
  from assms obtain coins chain t' where
    t': "getDenom E (String (currentChain path)) chain t0 = Inr t'"
    and sub: "(p, t) \<in> set (DFS_calls E ab (path @ [chain]) t')"
    by (rule DFS_calls_tl_cases)
  show ?thesis
    by (rule DFS_calls_invariant [OF sub,
          where I = "\<lambda>p t. denom t = ''ibc/'' @ toUpperCase (hash E (trace t))"])
       (use t' in \<open>auto dest: getDenom_trace(2)\<close>)
qed

lemma DFS_calls_trace_length:
  assumes "(p, t) \<in> set (DFS_calls E ab [origin] t0)"
  shows "19 * length p \<le> length (trace t) + 19"
proof (rule DFS_calls_invariant [OF assms,
         where I = "\<lambda>p t. 19 * length p \<le> length (trace t) + 19"])
  show "19 * length [origin] \<le> length (trace t0) + 19" by simp
next
  fix path t chain t'
  assume "19 * length path \<le> length (trace t) + 19"
    and "getDenom E (String (currentChain path)) chain t = Inr t'"
  then show "19 * length (path @ [chain]) \<le> length (trace t') + 19"
    using getDenom_trace(1) [of E "String (currentChain path)" chain t t'] by simp
qed

lemma example_deep:
  assumes "(p, t) \<in> set (DFS_calls (exampleExternals nc) ab [origin] t0)"
      and "4 \<le> length p"
  shows "118 \<le> length (denom t)"
proof -
  have "(p, t) \<in> set (([origin], t0) # tl (DFS_calls (exampleExternals nc) ab [origin] t0))"
    using assms(1) DFS_calls_Cons [of "exampleExternals nc" ab "[origin]" t0] by simp
  then have "(p, t) \<in> set (tl (DFS_calls (exampleExternals nc) ab [origin] t0))"
    using assms(2) by auto
  from DFS_calls_tl_denom [OF this]
  have "length (denom t) = 4 + 2 * length (trace t)"
    by (simp add: example_hash_length)
  moreover have "57 \<le> length (trace t)"
    using DFS_calls_trace_length [OF assms(1)] assms(2) by simp
  ultimately show ?thesis by simp
qed

lemma example_lookup_other:
  assumes "\<forall>coin \<in> set coins. coin_denom coin \<noteq> denom t"
  shows "\<not> gt0 (lookupBalance (exampleExternals nc) coins t)"
proof -
  have "find (\<lambda>accountBalance. coin_denom accountBalance = denom t) coins = None"
    using assms by (auto simp: find_None_iff)
  then show ?thesis by (simp add: lookupBalance_def exampleExternals_def)
qed

lemma example_denom_eval:
  "toUpperCase (hash (exampleExternals nc) ''transfer/channel-10/transfer/channel-874/untrn'') =
     ''7472616E736665722F6368616E6E656C2D31302F7472616E736665722F6368616E6E656C2D3837342F756E74726E''"
  by (simp add: hash_def exampleExternals_def toUpperCase_toHex uppercaseHex_def)

lemma example_via_terra:
  assumes "getDenom (exampleExternals nc) ''neutron'' ''terra'' \<lparr>denom = ''untrn'', trace = ''untrn''\<rparr> = Inr t1"
      and "getDenom (exampleExternals nc) ''terra'' ''neutron'' t1 = Inr t"
  shows "denom t \<noteq>
     ''ibc/7472616E736665722F6368616E6E656C2D31302F7472616E736665722F6368616E6E656C2D3837342F756E74726E''"
proof -
  let ?E = "exampleExternals nc"
  have "getDenom ?E ''neutron'' ''terra'' \<lparr>denom = ''untrn'', trace = ''untrn''\<rparr> =
      Inr \<lparr>denom = ''ibc/'' @ toUpperCase (hash ?E ''transfer/channel-229/untrn''),
           trace = ''transfer/channel-229/untrn''\<rparr>"
    by (simp add: getDenom_def readProp_def Let_def chainNameToIdMap_def IBCMap_def)
  with assms(1) have t1: "t1 = \<lparr>denom = ''ibc/'' @ toUpperCase (hash ?E ''transfer/channel-229/untrn''),
           trace = ''transfer/channel-229/untrn''\<rparr>"
    by simp
  have "getDenom ?E ''terra'' ''neutron'' t1 =
      Inr \<lparr>denom = ''ibc/'' @ toUpperCase (hash ?E ''transfer/channel-25/transfer/channel-229/untrn''),
           trace = ''transfer/channel-25/transfer/channel-229/untrn''\<rparr>"
    unfolding t1
    by (simp add: getDenom_def readProp_def Let_def chainNameToIdMap_def IBCMap_def)
  with assms(2) have "denom t = ''ibc/'' @ toUpperCase (hash ?E ''transfer/channel-25/transfer/channel-229/untrn'')"
    by auto
  then show ?thesis
    by (simp add: hash_def exampleExternals_def toUpperCase_toHex uppercaseHex_def)
qed

lemma example_via_stargaze:
  assumes "getDenom (exampleExternals nc) ''neutron'' ''stargaze'' \<lparr>denom = ''untrn'', trace = ''untrn''\<rparr> = Inr t1"
      and "getDenom (exampleExternals nc) ''stargaze'' ''neutron'' t1 = Inr t"
  shows "denom t \<noteq>
     ''ibc/7472616E736665722F6368616E6E656C2D31302F7472616E736665722F6368616E6E656C2D3837342F756E74726E''"
proof -
  let ?E = "exampleExternals nc"
  have "getDenom ?E ''neutron'' ''stargaze'' \<lparr>denom = ''untrn'', trace = ''untrn''\<rparr> =
      Inr \<lparr>denom = ''ibc/'' @ toUpperCase (hash ?E ''transfer/channel-191/untrn''),
           trace = ''transfer/channel-191/untrn''\<rparr>"
    by (simp add: getDenom_def readProp_def Let_def chainNameToIdMap_def IBCMap_def)
  with assms(1) have t1: "t1 = \<lparr>denom = ''ibc/'' @ toUpperCase (hash ?E ''transfer/channel-191/untrn''),
           trace = ''transfer/channel-191/untrn''\<rparr>"
    by simp
  have "getDenom ?E ''stargaze'' ''neutron'' t1 =
      Inr \<lparr>denom = ''ibc/'' @ toUpperCase (hash ?E ''transfer/channel-18/transfer/channel-191/untrn''),
           trace = ''transfer/channel-18/transfer/channel-191/untrn''\<rparr>"
    unfolding t1
    by (simp add: getDenom_def readProp_def Let_def chainNameToIdMap_def IBCMap_def)
  with assms(2) have "denom t = ''ibc/'' @ toUpperCase (hash ?E ''transfer/channel-18/transfer/channel-191/untrn'')"
    by auto
  then show ?thesis
    by (simp add: hash_def exampleExternals_def toUpperCase_toHex uppercaseHex_def)
qed

lemma example_via_cosmoshub:
  assumes "getDenom (exampleExternals nc) ''neutron'' ''cosmoshub'' \<lparr>denom = ''untrn'', trace = ''untrn''\<rparr> = Inr t1"
      and "getDenom (exampleExternals nc) ''cosmoshub'' ''neutron'' t1 = Inr t"
  shows "denom t \<noteq>
     ''ibc/7472616E736665722F6368616E6E656C2D31302F7472616E736665722F6368616E6E656C2D3837342F756E74726E''"
proof -
  let ?E = "exampleExternals nc"
  have "getDenom ?E ''neutron'' ''cosmoshub'' \<lparr>denom = ''untrn'', trace = ''untrn''\<rparr> =
      Inr \<lparr>denom = ''ibc/'' @ toUpperCase (hash ?E ''transfer/channel-569/untrn''),
           trace = ''transfer/channel-569/untrn''\<rparr>"
    by (simp add: getDenom_def readProp_def Let_def chainNameToIdMap_def IBCMap_def)
  with assms(1) have t1: "t1 = \<lparr>denom = ''ibc/'' @ toUpperCase (hash ?E ''transfer/channel-569/untrn''),
           trace = ''transfer/channel-569/untrn''\<rparr>"
    by simp
  have "getDenom ?E ''cosmoshub'' ''neutron'' t1 =
      Inr \<lparr>denom = ''ibc/'' @ toUpperCase (hash ?E ''transfer/channel-1/transfer/channel-569/untrn''),
           trace = ''transfer/channel-1/transfer/channel-569/untrn''\<rparr>"
    unfolding t1
    by (simp add: getDenom_def readProp_def Let_def chainNameToIdMap_def IBCMap_def)
  with assms(2) have "denom t = ''ibc/'' @ toUpperCase (hash ?E ''transfer/channel-1/transfer/channel-569/untrn'')"
    by auto
  then show ?thesis
    by (simp add: hash_def exampleExternals_def toUpperCase_toHex uppercaseHex_def)
qed

lemma example_via_stride:
  assumes "getDenom (exampleExternals nc) ''neutron'' ''stride'' \<lparr>denom = ''untrn'', trace = ''untrn''\<rparr> = Inr t1"
      and "getDenom (exampleExternals nc) ''stride'' ''neutron'' t1 = Inr t"
  shows "denom t \<noteq>
     ''ibc/7472616E736665722F6368616E6E656C2D31302F7472616E736665722F6368616E6E656C2D3837342F756E74726E''"
proof -
  let ?E = "exampleExternals nc"
  have "getDenom ?E ''neutron'' ''stride'' \<lparr>denom = ''untrn'', trace = ''untrn''\<rparr> =
      Inr \<lparr>denom = ''ibc/'' @ toUpperCase (hash ?E ''transfer/channel-123/untrn''),
           trace = ''transfer/channel-123/untrn''\<rparr>"
    by (simp add: getDenom_def readProp_def Let_def chainNameToIdMap_def IBCMap_def)
  with assms(1) have t1: "t1 = \<lparr>denom = ''ibc/'' @ toUpperCase (hash ?E ''transfer/channel-123/untrn''),
           trace = ''transfer/channel-123/untrn''\<rparr>"
    by simp
  have "getDenom ?E ''stride'' ''neutron'' t1 =
      Inr \<lparr>denom = ''ibc/'' @ toUpperCase (hash ?E ''transfer/channel-8/transfer/channel-123/untrn''),
           trace = ''transfer/channel-8/transfer/channel-123/untrn''\<rparr>"
    unfolding t1
    by (simp add: getDenom_def readProp_def Let_def chainNameToIdMap_def IBCMap_def)
  with assms(2) have "denom t = ''ibc/'' @ toUpperCase (hash ?E ''transfer/channel-8/transfer/channel-123/untrn'')"
    by auto
  then show ?thesis
    by (simp add: hash_def exampleExternals_def toUpperCase_toHex uppercaseHex_def)
qed

lemma example_two_hop_others:
  assumes "c1 \<in> set chainNames" and "c1 \<noteq> ''neutron''" and "c1 \<noteq> ''osmosis''"
      and "getDenom (exampleExternals nc) ''neutron'' c1 \<lparr>denom = ''untrn'', trace = ''untrn''\<rparr> = Inr t1"
      and "getDenom (exampleExternals nc) c1 ''neutron'' t1 = Inr t"
  shows "denom t \<noteq>
     ''ibc/7472616E736665722F6368616E6E656C2D31302F7472616E736665722F6368616E6E656C2D3837342F756E74726E''"
proof -
  from assms(1-3) have "c1 = ''terra'' \<or> c1 = ''stargaze'' \<or> c1 = ''cosmoshub'' \<or> c1 = ''stride''"
    by (auto simp: chainNames_eq)
  then show ?thesis
    using assms(4,5) example_via_terra example_via_stargaze example_via_cosmoshub example_via_stride
    by blast
qed

lemma example_snapshot_other:
  assumes "map_of (exampleSnapshots nc) c = Some coins" and "c \<noteq> ''neutron''"
  shows "coins = []"
proof -
  have "map_of (exampleSnapshots nc) c = map_of (tl (exampleSnapshots nc)) c"
    using assms(2) by (simp add: exampleSnapshots_def)
  then have "(c, coins) \<in> set (tl (exampleSnapshots nc))"
    using assms(1) by (simp add: map_of_SomeD)
  then show ?thesis by (auto simp: exampleSnapshots_def)
qed

lemma getDenom_osmosis_neutron:
  "getDenom E ''osmosis'' ''neutron'' \<lparr>denom = d, trace = ''transfer/channel-874/untrn''\<rparr> =
     Inr \<lparr>denom = ''ibc/'' @ toUpperCase (hash E ''transfer/channel-10/transfer/channel-874/untrn''),
          trace = ''transfer/channel-10/transfer/channel-874/untrn''\<rparr>"
  by (simp add: getDenom_def readProp_def Let_def chainNameToIdMap_def IBCMap_def)

lemma example_two_hops:
  "trackBalances
     (exampleExternals
       [\<lparr>coin_denom = ''ibc/7472616E736665722F6368616E6E656C2D31302F7472616E736665722F6368616E6E656C2D3837342F756E74726E'',
         amount = ''5''\<rparr>])
     ''untrn'' account =
   Inr [''neutron'' \<mapsto>
         [\<lparr>record_denom = ''ibc/7472616E736665722F6368616E6E656C2D31302F7472616E736665722F6368616E6E656C2D3837342F756E74726E'',
           originDenom = ''untrn'', balance = Finite 5,
           record_path = [''neutron'', ''osmosis'', ''neutron'']\<rparr>]]"
proof -
  let ?D = "''ibc/7472616E736665722F6368616E6E656C2D31302F7472616E736665722F6368616E6E656C2D3837342F756E74726E''"
  let ?nc = "[\<lparr>coin_denom = ?D, amount = ''5''\<rparr>]"
  let ?E = "exampleExternals ?nc"
  let ?ab = "map_of (exampleSnapshots ?nc)"
  let ?t0 = "\<lparr>denom = ''untrn'', trace = ''untrn''\<rparr>"
  let ?t1 = "\<lparr>denom = ''ibc/'' @ toUpperCase (hash ?E ''transfer/channel-874/untrn''),
              trace = ''transfer/channel-874/untrn''\<rparr>"
  let ?t2 = "\<lparr>denom = ?D, trace = ''transfer/channel-10/transfer/channel-874/untrn''\<rparr>"
  let ?calls = "DFS_calls ?E ?ab [''neutron''] ?t0"
  have ab_n: "?ab ''neutron'' = Some ?nc" by (simp add: exampleSnapshots_def)
  have ab_o: "?ab ''osmosis'' = Some []" by (simp add: exampleSnapshots_def)
  have g1: "getDenom ?E ''neutron'' ''osmosis'' ?t0 = Inr ?t1"
    using getDenom_neutron_osmosis [of ?E "''untrn''"] by simp
  have g2: "getDenom ?E ''osmosis'' ''neutron'' ?t1 = Inr ?t2"
    by (simp only: getDenom_osmosis_neutron example_denom_eval append_Cons append_Nil)
  have "([''neutron'', ''osmosis'', ''neutron''], ?t2) \<in>
          set (DFS_calls ?E ?ab ([''neutron'', ''osmosis''] @ [''neutron'']) ?t2)"
    by (subst DFS_calls_Cons) simp
  then have "([''neutron'', ''osmosis'', ''neutron''], ?t2) \<in>
          set (DFS_calls ?E ?ab ([''neutron''] @ [''osmosis'']) ?t1)"
    using ab_o g2
    by (intro DFS_calls_childI [where path = "[''neutron''] @ [''osmosis'']" and chain = "''neutron''"
                                 and coins = "[]" and t' = ?t2])
       (simp_all add: currentChain_def chainNames_eq)
  then have mem: "([''neutron'', ''osmosis'', ''neutron''], ?t2) \<in> set ?calls"
    using ab_n g1
    by (intro DFS_calls_childI [where path = "[''neutron'']" and chain = "''osmosis''"
                                 and coins = ?nc and t' = ?t1])
       (simp_all add: currentChain_def chainNames_eq)
  have noop: "\<not> gt0 (lookupBalance ?E coins (snd c))"
    if c: "c \<in> set ?calls" and other: "fst c \<noteq> fst ([''neutron'', ''osmosis'', ''neutron''], ?t2)"
      and coins: "?ab (String (currentChain (fst c))) = Some coins" for c coins
  proof -
    obtain p t where pt: "c = (p, t)" by (cases c)
    from c have in_calls: "(p, t) \<in> set ?calls" by (simp add: pt)
    from DFS_calls_shape [OF in_calls] have "p \<noteq> []" by simp
    then have snap: "?ab (last p) = Some coins" using coins by (simp add: pt currentChain_def)
    have held: "\<forall>coin \<in> set coins. coin_denom coin \<noteq> denom t"
      if "last p = ''neutron'' \<Longrightarrow> denom t \<noteq> ?D"
    proof (cases "last p = ''neutron''")
      case True
      then show ?thesis using that snap ab_n by auto
    next
      case False
      from example_snapshot_other [OF snap False] show ?thesis by simp
    qed
    have "\<forall>coin \<in> set coins. coin_denom coin \<noteq> denom t"
      using in_calls
    proof (cases rule: DFS_calls_levels)
      case root
      then show ?thesis by (intro held) simp
    next
      case (one c1)
      then show ?thesis by (intro held) simp
    next
      case (two c1 c2 t1)
      show ?thesis
      proof (rule held)
        assume "last p = ''neutron''"
        then have c2: "c2 = ''neutron''" using two(5) by simp
        have "c1 \<noteq> ''osmosis''" using other two(5) c2 by (simp add: pt)
        from example_two_hop_others [OF two(2) two(1) this two(3) two(4) [unfolded c2]]
        show "denom t \<noteq> ?D" .
      qed
    next
      case deep
      from example_deep [OF in_calls deep] show ?thesis by (intro held) auto
    qed
    from example_lookup_other [OF this] show ?thesis by (simp add: pt)
  qed
  have "trackBalances ?E ''untrn'' account = Inr (fold (visitAt ?E ?ab ''untrn'') ?calls Map.empty)"
    by (rule trackBalances_fold [OF example_fetchAll])
  also have "fold (visitAt ?E ?ab ''untrn'') ?calls Map.empty =
      visitAt ?E ?ab ''untrn'' ([''neutron'', ''osmosis'', ''neutron''], ?t2) Map.empty"
    by (rule fold_visitAt_once [OF DFS_calls_distinct mem noop])
  also have "\<dots> = [''neutron'' \<mapsto>
         [\<lparr>record_denom = ?D, originDenom = ''untrn'', balance = Finite 5,
           record_path = [''neutron'', ''osmosis'', ''neutron'']\<rparr>]]"
    using ab_n
    by (simp add: visitAt_def visit_def currentChain_def pushRecord_def lookupBalance_def
          exampleExternals_def)
  finally show ?thesis .
qed

subsection \<open>trackBalances\<close>

text \<open>C2 as stated fails. An amount \<^verbatim>\<open>'Infinity'\<close> parses to a number that passes
  \<^verbatim>\<open>balance && balance > 0\<close>, and the record has a balance that is not finite. And with two
  entries of the same denom, amounts \<^verbatim>\<open>'0'\<close> and \<^verbatim>\<open>'5'\<close> in this order, the snapshot
  contains an entry with a finite positive amount and no record is appended: \<^verbatim>\<open>find\<close>
  returns the first entry.\<close>

theorem trackBalances_records_counterexample:
  "trackBalances (exampleExternals [\<lparr>coin_denom = ''untrn'', amount = ''Infinity''\<rparr>]) ''untrn''
      ''neutron1lzecpea0qxw5xae92xkm3vaddeszr278k7w20c'' =
     Inr [''neutron'' \<mapsto>
           [\<lparr>record_denom = ''untrn'', originDenom = ''untrn'', balance = PosInfinity,
             record_path = [''neutron'']\<rparr>]] \<and>
   \<not> isFinite PosInfinity \<and>
   trackBalances (exampleExternals [\<lparr>coin_denom = ''untrn'', amount = ''0''\<rparr>,
                                    \<lparr>coin_denom = ''untrn'', amount = ''5''\<rparr>]) ''untrn''
      ''neutron1lzecpea0qxw5xae92xkm3vaddeszr278k7w20c'' = Inr Map.empty \<and>
   parseFloat (exampleExternals [\<lparr>coin_denom = ''untrn'', amount = ''0''\<rparr>,
                                 \<lparr>coin_denom = ''untrn'', amount = ''5''\<rparr>]) ''5'' = Finite 5 \<and>
   isFinite (Finite 5) \<and> gt0 (Finite 5)"
  by (simp add: example_infinity example_second_entry) (simp add: exampleExternals_def)

text \<open>C2, amended. When the snapshots are fetched, \<open>trackBalances\<close> returns a mapping in
  which the list of every chain is, in the order of the traversal, exactly one record
  \<^verbatim>\<open>{denom: trace.denom, originDenom: baseDenom, balance: amount, path}\<close> for every visited
  node \<open>(path, trace)\<close> that ends at the chain and for which the \<^emph>\<open>first\<close> entry of the
  chain's snapshot whose denom equals \<^verbatim>\<open>trace.denom\<close> exists and has an amount that is not
  empty and parses to a number greater than 0 (a positive finite number or
  \<^verbatim>\<open>Infinity\<close>); no list is empty, and every record has a balance greater than 0.
  \<^verbatim>\<open>parseFloat('0')\<close> is taken not to be greater than 0.\<close>

theorem trackBalances_records:
  assumes "fetchAll E account chainNames = Inr allBalances"
      and "\<not> gt0 (parseFloat E ''0'')"
  shows "\<exists>balances. trackBalances E denom' account = Inr balances \<and>
     (\<forall>chain. recordsOf balances chain =
        List.map_filter (spec_appended E (map_of allBalances) denom' chain)
          (DFS_calls E (map_of allBalances) [''neutron''] \<lparr>denom = denom', trace = denom'\<rparr>)) \<and>
     (\<forall>chain. balances chain \<noteq> Some []) \<and>
     (\<forall>chain rs. balances chain = Some rs \<longrightarrow> (\<forall>r \<in> set rs. gt0 (balance r)))"
proof -
  let ?calls = "DFS_calls E (map_of allBalances) [''neutron''] \<lparr>denom = denom', trace = denom'\<rparr>"
  let ?bal = "fold (visitAt E (map_of allBalances) denom') ?calls Map.empty"
  have tb: "trackBalances E denom' account = Inr ?bal"
    by (rule trackBalances_fold [OF assms(1)])
  have nonempty: "fst call \<noteq> []" if "call \<in> set ?calls" for call
  proof -
    obtain p t where pt: "call = (p, t)" by (cases call)
    from DFS_calls_shape [OF that [unfolded pt]] show ?thesis by (simp add: pt)
  qed
  have records: "recordsOf ?bal chain =
      List.map_filter (spec_appended E (map_of allBalances) denom' chain) ?calls" for chain
  proof -
    have "recordsOf Map.empty chain = []" by (simp add: recordsOf_def)
    then have "recordsOf ?bal chain = concat (map (pushed E (map_of allBalances) denom' chain) ?calls)"
      by (simp only: fold_visitAt_recordsOf append_Nil)
    also have "\<dots> = List.map_filter (spec_appended E (map_of allBalances) denom' chain) ?calls"
      by (rule pushed_map_filter) (use nonempty assms(2) in auto)
    finally show ?thesis .
  qed
  have lists: "?bal chain \<noteq> Some []" for chain
    using fold_visitAt_lists [of Map.empty E "map_of allBalances" denom' ?calls chain "[]"]
    by auto
  have positive: "gt0 (balance r)" if "?bal chain = Some rs" "r \<in> set rs" for chain rs r
  proof -
    from tb that obtain coins t where "gt0 (lookupBalance E coins t)"
      and "r = \<lparr>record_denom = denom t, originDenom = denom', balance = lookupBalance E coins t,
              record_path = record_path r\<rparr>"
      by (rule trackBalances_record)
    then show ?thesis by (metis BalanceRecord.select_convs(3))
  qed
  show ?thesis
    using tb records lists positive by blast
qed

theorem trackBalances_records_witness:
  "fetchAll (exampleExternals [\<lparr>coin_denom = ''untrn'', amount = ''5''\<rparr>])
      ''neutron1lzecpea0qxw5xae92xkm3vaddeszr278k7w20c'' chainNames =
     Inr (exampleSnapshots [\<lparr>coin_denom = ''untrn'', amount = ''5''\<rparr>]) \<and>
   \<not> gt0 (parseFloat (exampleExternals [\<lparr>coin_denom = ''untrn'', amount = ''5''\<rparr>]) ''0'') \<and>
   (\<exists>balances.
      trackBalances (exampleExternals [\<lparr>coin_denom = ''untrn'', amount = ''5''\<rparr>]) ''untrn''
        ''neutron1lzecpea0qxw5xae92xkm3vaddeszr278k7w20c'' = Inr balances \<and>
     (\<forall>chain. recordsOf balances chain =
        List.map_filter
          (spec_appended (exampleExternals [\<lparr>coin_denom = ''untrn'', amount = ''5''\<rparr>])
             (map_of (exampleSnapshots [\<lparr>coin_denom = ''untrn'', amount = ''5''\<rparr>])) ''untrn'' chain)
          (DFS_calls (exampleExternals [\<lparr>coin_denom = ''untrn'', amount = ''5''\<rparr>])
             (map_of (exampleSnapshots [\<lparr>coin_denom = ''untrn'', amount = ''5''\<rparr>]))
             [''neutron''] \<lparr>denom = ''untrn'', trace = ''untrn''\<rparr>)) \<and>
     (\<forall>chain. balances chain \<noteq> Some []) \<and>
     (\<forall>chain rs. balances chain = Some rs \<longrightarrow> (\<forall>r \<in> set rs. gt0 (balance r))))"
proof -
  have a: "\<not> gt0 (parseFloat (exampleExternals [\<lparr>coin_denom = ''untrn'', amount = ''5''\<rparr>]) ''0'')"
    by (simp add: exampleExternals_def)
  show ?thesis
    by (intro conjI) (rule example_fetchAll, rule a, rule trackBalances_records [OF example_fetchAll a])
qed

text \<open>C4. For every BalanceRecord that \<open>trackBalances\<close> produces, the path without its
  first element has no duplicates, the path starts at the origin \<^verbatim>\<open>neutron\<close>, and so only
  the origin may occur twice in the path, every other chain at most once.\<close>

theorem record_path_no_duplicates:
  assumes "trackBalances E d account = Inr balances"
      and "balances chain = Some rs"
      and "r \<in> set rs"
  shows "distinct (tl (record_path r)) \<and> hd (record_path r) = ''neutron'' \<and>
         (\<forall>c. count_list (record_path r) c \<le> (if c = ''neutron'' then 2 else 1))"
proof -
  from assms obtain snaps t where
    "(record_path r, t) \<in> set (DFS_calls E (map_of snaps) [''neutron''] \<lparr>denom = d, trace = d\<rparr>)"
    by (rule trackBalances_record)
  from DFS_calls_shape [OF this]
  have "record_path r \<noteq> []" "hd (record_path r) = ''neutron''" "distinct (tl (record_path r))"
    by simp_all
  then show ?thesis using count_list_path [of "record_path r" "''neutron''"] by simp
qed

theorem record_path_no_duplicates_witness:
  "trackBalances
     (exampleExternals
       [\<lparr>coin_denom = ''ibc/7472616E736665722F6368616E6E656C2D31302F7472616E736665722F6368616E6E656C2D3837342F756E74726E'',
         amount = ''5''\<rparr>])
     ''untrn'' ''neutron1lzecpea0qxw5xae92xkm3vaddeszr278k7w20c'' =
     Inr [''neutron'' \<mapsto>
       [\<lparr>record_denom = ''ibc/7472616E736665722F6368616E6E656C2D31302F7472616E736665722F6368616E6E656C2D3837342F756E74726E'',
       originDenom = ''untrn'', balance = Finite 5,
       record_path = [''neutron'', ''osmosis'', ''neutron'']\<rparr>]] \<and>
   [''neutron'' \<mapsto>
       [\<lparr>record_denom = ''ibc/7472616E736665722F6368616E6E656C2D31302F7472616E736665722F6368616E6E656C2D3837342F756E74726E'',
       originDenom = ''untrn'', balance = Finite 5,
       record_path = [''neutron'', ''osmosis'', ''neutron'']\<rparr>]] ''neutron'' =
     Some [\<lparr>record_denom = ''ibc/7472616E736665722F6368616E6E656C2D31302F7472616E736665722F6368616E6E656C2D3837342F756E74726E'',
       originDenom = ''untrn'', balance = Finite 5,
       record_path = [''neutron'', ''osmosis'', ''neutron'']\<rparr>] \<and>
   \<lparr>record_denom = ''ibc/7472616E736665722F6368616E6E656C2D31302F7472616E736665722F6368616E6E656C2D3837342F756E74726E'',
       originDenom = ''untrn'', balance = Finite 5,
       record_path = [''neutron'', ''osmosis'', ''neutron'']\<rparr> \<in>
     set [\<lparr>record_denom = ''ibc/7472616E736665722F6368616E6E656C2D31302F7472616E736665722F6368616E6E656C2D3837342F756E74726E'',
       originDenom = ''untrn'', balance = Finite 5,
       record_path = [''neutron'', ''osmosis'', ''neutron'']\<rparr>] \<and>
   tl (record_path \<lparr>record_denom = ''ibc/7472616E736665722F6368616E6E656C2D31302F7472616E736665722F6368616E6E656C2D3837342F756E74726E'',
       originDenom = ''untrn'', balance = Finite 5,
       record_path = [''neutron'', ''osmosis'', ''neutron'']\<rparr>) = [''osmosis'', ''neutron''] \<and>
   count_list (record_path \<lparr>record_denom = ''ibc/7472616E736665722F6368616E6E656C2D31302F7472616E736665722F6368616E6E656C2D3837342F756E74726E'',
       originDenom = ''untrn'', balance = Finite 5,
       record_path = [''neutron'', ''osmosis'', ''neutron'']\<rparr>) ''neutron'' = 2 \<and>
   distinct (tl (record_path \<lparr>record_denom = ''ibc/7472616E736665722F6368616E6E656C2D31302F7472616E736665722F6368616E6E656C2D3837342F756E74726E'',
       originDenom = ''untrn'', balance = Finite 5,
       record_path = [''neutron'', ''osmosis'', ''neutron'']\<rparr>)) \<and>
   hd (record_path \<lparr>record_denom = ''ibc/7472616E736665722F6368616E6E656C2D31302F7472616E736665722F6368616E6E656C2D3837342F756E74726E'',
       originDenom = ''untrn'', balance = Finite 5,
       record_path = [''neutron'', ''osmosis'', ''neutron'']\<rparr>) = ''neutron'' \<and>
   (\<forall>c. count_list (record_path \<lparr>record_denom = ''ibc/7472616E736665722F6368616E6E656C2D31302F7472616E736665722F6368616E6E656C2D3837342F756E74726E'',
       originDenom = ''untrn'', balance = Finite 5,
       record_path = [''neutron'', ''osmosis'', ''neutron'']\<rparr>) c \<le> (if c = ''neutron'' then 2 else 1))"
proof -
  let ?r = "\<lparr>record_denom = ''ibc/7472616E736665722F6368616E6E656C2D31302F7472616E736665722F6368616E6E656C2D3837342F756E74726E'',
       originDenom = ''untrn'', balance = Finite 5,
       record_path = [''neutron'', ''osmosis'', ''neutron'']\<rparr>"
  have a: "[''neutron'' \<mapsto> [?r]] ''neutron'' = Some [?r]" by simp
  have b: "?r \<in> set [?r]" by simp
  have t: "tl (record_path ?r) = [''osmosis'', ''neutron'']" by simp
  have n: "count_list (record_path ?r) ''neutron'' = 2" by simp
  note c = record_path_no_duplicates [OF example_two_hops a b]
  show ?thesis
    by (intro conjI)
       (rule example_two_hops, rule a, rule b, rule t, rule n, rule c [THEN conjunct1],
        rule c [THEN conjunct2, THEN conjunct1], rule c [THEN conjunct2, THEN conjunct2])
qed

text \<open>C5. Every BalanceRecord in the list of a chain \<open>c\<close> of the mapping that
  \<open>trackBalances\<close> returns has a path whose last element is \<open>c\<close>.\<close>

theorem record_path_ends_at_chain:
  assumes "trackBalances E d account = Inr balances"
      and "balances chain = Some rs"
      and "r \<in> set rs"
  shows "record_path r \<noteq> [] \<and> last (record_path r) = chain"
proof -
  from assms have "record_path r \<noteq> []" "last (record_path r) = chain"
    by (rule trackBalances_record; simp)+
  then show ?thesis by simp
qed

theorem record_path_ends_at_chain_witness:
  "trackBalances (exampleExternals [\<lparr>coin_denom = ''untrn'', amount = ''5''\<rparr>]) ''untrn''
      ''neutron1lzecpea0qxw5xae92xkm3vaddeszr278k7w20c'' =
     Inr [''neutron'' \<mapsto>
           [\<lparr>record_denom = ''untrn'', originDenom = ''untrn'', balance = Finite 5,
             record_path = [''neutron'']\<rparr>]] \<and>
   [''neutron'' \<mapsto>
           [\<lparr>record_denom = ''untrn'', originDenom = ''untrn'', balance = Finite 5,
             record_path = [''neutron'']\<rparr>]] ''neutron'' =
     Some [\<lparr>record_denom = ''untrn'', originDenom = ''untrn'', balance = Finite 5,
             record_path = [''neutron'']\<rparr>] \<and>
   \<lparr>record_denom = ''untrn'', originDenom = ''untrn'', balance = Finite 5,
             record_path = [''neutron'']\<rparr> \<in>
     set [\<lparr>record_denom = ''untrn'', originDenom = ''untrn'', balance = Finite 5,
             record_path = [''neutron'']\<rparr>] \<and>
   record_path \<lparr>record_denom = ''untrn'', originDenom = ''untrn'', balance = Finite 5,
             record_path = [''neutron'']\<rparr> \<noteq> [] \<and>
   last (record_path \<lparr>record_denom = ''untrn'', originDenom = ''untrn'', balance = Finite 5,
             record_path = [''neutron'']\<rparr>) = ''neutron''"
proof -
  let ?r = "\<lparr>record_denom = ''untrn'', originDenom = ''untrn'', balance = Finite 5,
             record_path = [''neutron'']\<rparr>"
  have a: "[''neutron'' \<mapsto> [?r]] ''neutron'' = Some [?r]" by simp
  have b: "?r \<in> set [?r]" by simp
  note c = record_path_ends_at_chain [OF example_held a b]
  show ?thesis
    by (intro conjI) (rule example_held, rule a, rule b, rule c [THEN conjunct1], rule c [THEN conjunct2])
qed

text \<open>C6. The traversal terminates: every argument of \<open>DFS\<close> is in the domain of its
  recursion (\<open>DFS_dom\<close>, the accessible part of the call relation \<open>DFS_rel\<close> of the
  definition); each recursive call extends the path by a registered chain that is not the
  current chain and not in \<^verbatim>\<open>path.slice(1)\<close>; and every path of the traversal from a single
  origin has at most as many elements as there are registered chains, plus one.\<close>

theorem DFS_terminates:
  "DFS_dom (E, allBalances, denom', path, denomTrace, balances) \<and>
   (DFS_rel (E', allBalances', denom'', path', denomTrace', balances')
            (E, allBalances, denom', path, denomTrace, balances) \<longrightarrow>
      (\<exists>chain. path' = path @ [chain] \<and> chain \<in> set chainNames \<and>
               chain \<notin> set (tl path) \<and> currentChain path \<noteq> Some chain)) \<and>
   (\<forall>(p, t) \<in> set (DFS_calls E allBalances [origin] denomTrace).
      length p \<le> length chainNames + 1)"
proof (intro conjI impI ballI)
  show "DFS_dom (E, allBalances, denom', path, denomTrace, balances)"
    by (rule DFS_dom_all)
next
  assume "DFS_rel (E', allBalances', denom'', path', denomTrace', balances')
            (E, allBalances, denom', path, denomTrace, balances)"
  then show "\<exists>chain. path' = path @ [chain] \<and> chain \<in> set chainNames \<and>
               chain \<notin> set (tl path) \<and> currentChain path \<noteq> Some chain"
    by (rule DFS_rel_step)
next
  fix call
  assume call: "call \<in> set (DFS_calls E allBalances [origin] denomTrace)"
  obtain p t where pt: "call = (p, t)" by (cases call)
  from DFS_calls_length [OF call [unfolded pt]]
  show "case call of (p, t) \<Rightarrow> length p \<le> length chainNames + 1"
    by (simp add: pt)
qed

theorem DFS_terminates_witness:
  "DFS_rel (exampleExternals [], map_of (exampleSnapshots []), ''untrn'', [''neutron'', ''osmosis''],
            \<lparr>denom = ''ibc/'' @ toUpperCase (hash (exampleExternals []) ''transfer/channel-874/untrn''),
             trace = ''transfer/channel-874/untrn''\<rparr>, Map.empty)
           (exampleExternals [], map_of (exampleSnapshots []), ''untrn'', [''neutron''],
            \<lparr>denom = ''untrn'', trace = ''untrn''\<rparr>, Map.empty) \<and>
   (\<exists>chain. [''neutron'', ''osmosis''] = [''neutron''] @ [chain] \<and> chain \<in> set chainNames \<and>
            chain \<notin> set (tl [''neutron'']) \<and> currentChain [''neutron''] \<noteq> Some chain) \<and>
   ([''neutron''], \<lparr>denom = ''untrn'', trace = ''untrn''\<rparr>) \<in>
      set (DFS_calls (exampleExternals []) (map_of (exampleSnapshots [])) [''neutron'']
             \<lparr>denom = ''untrn'', trace = ''untrn''\<rparr>) \<and>
   length [''neutron''] \<le> length chainNames + 1 \<and>
   DFS_dom (exampleExternals [], map_of (exampleSnapshots []), ''untrn'', [''neutron''],
            \<lparr>denom = ''untrn'', trace = ''untrn''\<rparr>, Map.empty)"
proof -
  let ?E = "exampleExternals []" and ?ab = "map_of (exampleSnapshots [])"
  let ?t0 = "\<lparr>denom = ''untrn'', trace = ''untrn''\<rparr>"
  let ?t1 = "\<lparr>denom = ''ibc/'' @ toUpperCase (hash (exampleExternals []) ''transfer/channel-874/untrn''),
             trace = ''transfer/channel-874/untrn''\<rparr>"
  have rel: "DFS_rel (?E, ?ab, ''untrn'', [''neutron''] @ [''osmosis''], ?t1, Map.empty)
                     (?E, ?ab, ''untrn'', [''neutron''], ?t0, Map.empty)"
  proof (rule DFS_rel.intros)
    show "?ab (String (currentChain [''neutron''])) = Some []"
      by (simp add: currentChain_def exampleSnapshots_def)
    show "''osmosis'' \<in> set chainNames" by (simp add: chainNames_eq)
    show "''osmosis'' \<notin> set (tl [''neutron'']) \<and> currentChain [''neutron''] \<noteq> Some ''osmosis''"
      by (simp add: currentChain_def)
    show "getDenom ?E (String (currentChain [''neutron''])) ''osmosis'' ?t0 = Inr ?t1"
      using getDenom_neutron_osmosis [of ?E "''untrn''"] by (simp add: currentChain_def)
  qed
  then have rel': "DFS_rel (?E, ?ab, ''untrn'', [''neutron'', ''osmosis''], ?t1, Map.empty)
                     (?E, ?ab, ''untrn'', [''neutron''], ?t0, Map.empty)"
    by simp
  have root: "([''neutron''], ?t0) \<in> set (DFS_calls ?E ?ab [''neutron''] ?t0)"
    by (subst DFS_calls_Cons) simp
  note t = DFS_terminates [of ?E ?ab "''untrn''" "[''neutron'']" ?t0 Map.empty
      ?E ?ab "''untrn''" "[''neutron'', ''osmosis'']" ?t1 Map.empty "''neutron''"]
  have len: "length [''neutron''] \<le> length chainNames + 1"
    using t [THEN conjunct2, THEN conjunct2, THEN bspec, OF root] by simp
  show ?thesis
    by (intro conjI) (rule rel', rule t [THEN conjunct2, THEN conjunct1, THEN mp, OF rel'],
        rule root, rule len, rule t [THEN conjunct1])
qed

text \<open>C7. If the base denom has the positive balance \<open>B\<close> in the snapshot of the origin
  \<^verbatim>\<open>neutron\<close>, and at every other node of the traversal the snapshot of the node's chain
  holds no positive balance of the node's denom, then \<open>trackBalances\<close> returns the mapping
  with the single key \<^verbatim>\<open>neutron\<close> and the single record
  \<^verbatim>\<open>{denom: baseDenom, originDenom: baseDenom, balance: B, path: ['neutron']}\<close>.\<close>

theorem trackBalances_held_on_origin_only:
  assumes "fetchAll E account chainNames = Inr allBalances"
      and "map_of allBalances ''neutron'' = Some coins"
      and "lookupBalance E coins \<lparr>denom = baseDenom, trace = baseDenom\<rparr> = B"
      and "gt0 B"
      and "\<forall>(p, t) \<in> set (tl (DFS_calls E (map_of allBalances) [''neutron'']
                                \<lparr>denom = baseDenom, trace = baseDenom\<rparr>)).
             \<forall>coins'. map_of allBalances (last p) = Some coins' \<longrightarrow>
                \<not> gt0 (lookupBalance E coins' t)"
  shows "trackBalances E baseDenom account =
           Inr [''neutron'' \<mapsto>
                 [\<lparr>record_denom = baseDenom, originDenom = baseDenom, balance = B,
                   record_path = [''neutron'']\<rparr>]]"
  using origin_only [OF assms(1,2) _ assms(5)] assms(3,4) by simp

theorem trackBalances_held_on_origin_only_witness:
  "fetchAll (exampleExternals [\<lparr>coin_denom = ''untrn'', amount = ''5''\<rparr>])
      ''neutron1lzecpea0qxw5xae92xkm3vaddeszr278k7w20c'' chainNames =
     Inr (exampleSnapshots [\<lparr>coin_denom = ''untrn'', amount = ''5''\<rparr>]) \<and>
   map_of (exampleSnapshots [\<lparr>coin_denom = ''untrn'', amount = ''5''\<rparr>]) ''neutron'' =
     Some [\<lparr>coin_denom = ''untrn'', amount = ''5''\<rparr>] \<and>
   lookupBalance (exampleExternals [\<lparr>coin_denom = ''untrn'', amount = ''5''\<rparr>])
      [\<lparr>coin_denom = ''untrn'', amount = ''5''\<rparr>] \<lparr>denom = ''untrn'', trace = ''untrn''\<rparr> = Finite 5 \<and>
   gt0 (Finite 5) \<and>
   \<not> (\<exists>(p, t) \<in> set (tl (DFS_calls (exampleExternals [\<lparr>coin_denom = ''untrn'', amount = ''5''\<rparr>])
                            (map_of (exampleSnapshots [\<lparr>coin_denom = ''untrn'', amount = ''5''\<rparr>]))
                            [''neutron''] \<lparr>denom = ''untrn'', trace = ''untrn''\<rparr>)).
        \<exists>coins'. map_of (exampleSnapshots [\<lparr>coin_denom = ''untrn'', amount = ''5''\<rparr>]) (last p) = Some coins' \<and>
          gt0 (lookupBalance (exampleExternals [\<lparr>coin_denom = ''untrn'', amount = ''5''\<rparr>]) coins' t)) \<and>
   trackBalances (exampleExternals [\<lparr>coin_denom = ''untrn'', amount = ''5''\<rparr>]) ''untrn''
      ''neutron1lzecpea0qxw5xae92xkm3vaddeszr278k7w20c'' =
     Inr [''neutron'' \<mapsto>
           [\<lparr>record_denom = ''untrn'', originDenom = ''untrn'', balance = Finite 5,
             record_path = [''neutron'']\<rparr>]]"
proof -
  let ?nc = "[\<lparr>coin_denom = ''untrn'', amount = ''5''\<rparr>]"
  let ?E = "exampleExternals ?nc" and ?t0 = "\<lparr>denom = ''untrn'', trace = ''untrn''\<rparr>"
  have a: "map_of (exampleSnapshots ?nc) ''neutron'' = Some ?nc"
    by (simp add: exampleSnapshots_def)
  have b: "lookupBalance ?E ?nc ?t0 = Finite 5"
    by (simp add: lookupBalance_def exampleExternals_def)
  have c: "gt0 (Finite 5)" by simp
  have d: "\<forall>(p, t) \<in> set (tl (DFS_calls ?E (map_of (exampleSnapshots ?nc)) [''neutron''] ?t0)).
            \<forall>coins'. map_of (exampleSnapshots ?nc) (last p) = Some coins' \<longrightarrow>
               \<not> gt0 (lookupBalance ?E coins' t)"
    using example_others [of ?nc] by auto
  then have d': "\<not> (\<exists>(p, t) \<in> set (tl (DFS_calls ?E (map_of (exampleSnapshots ?nc)) [''neutron''] ?t0)).
        \<exists>coins'. map_of (exampleSnapshots ?nc) (last p) = Some coins' \<and>
          gt0 (lookupBalance ?E coins' t))"
    by blast
  show ?thesis
    by (intro conjI)
       (rule example_fetchAll, rule a, rule b, rule c, rule d',
        rule trackBalances_held_on_origin_only [OF example_fetchAll a b c d])
qed

subsection \<open>The address codec\<close>

lemma extract_bits:
  assumes "b + o' \<le> 31"
  shows "unat (signed_drop_bit b (word_of_nat N :: 32 word) AND mask o') = (N div 2 ^ b) mod 2 ^ o'"
proof -
  have "signed_drop_bit b (word_of_nat N :: 32 word) AND mask o' =
        word_of_nat ((N div 2 ^ b) mod 2 ^ o')"
    using assms
    by (auto simp: bit_eq_iff bit_simps bit_signed_drop_bit_iff simp flip: drop_bit_eq_div take_bit_eq_mod)
  moreover have "(N div 2 ^ b) mod 2 ^ o' < 2 ^ 32"
  proof -
    have "(N div 2 ^ b) mod 2 ^ o' < 2 ^ o'" by simp
    also have "(2::nat) ^ o' \<le> 2 ^ 32" using assms by (intro power_increasing) auto
    finally show ?thesis .
  qed
  ultimately show ?thesis by (simp add: unat_of_nat)
qed

lemma pad_bits:
  assumes "o' \<le> 32"
  shows "unat (push_bit k (word_of_nat N :: 32 word) AND mask o') = (N * 2 ^ k) mod 2 ^ o'"
proof -
  have "push_bit k (word_of_nat N :: 32 word) AND mask o' = word_of_nat ((N * 2 ^ k) mod 2 ^ o')"
    using assms
    by (auto simp: bit_eq_iff bit_simps simp flip: push_bit_eq_mult take_bit_eq_mod)
  moreover have "(N * 2 ^ k) mod 2 ^ o' < 2 ^ 32"
  proof -
    have "(N * 2 ^ k) mod 2 ^ o' < 2 ^ o'" by simp
    also have "(2::nat) ^ o' \<le> 2 ^ 32" using assms by (intro power_increasing) auto
    finally show ?thesis .
  qed
  ultimately show ?thesis by (simp add: unat_of_nat)
qed

lemma shift_in:
  assumes "d < 2 ^ i"
  shows "push_bit i (word_of_nat N :: 32 word) OR word_of_nat d = word_of_nat (N * 2 ^ i + d)"
proof -
  have "N * 2 ^ i + d = push_bit i N OR d"
    using assms
    by (metis add.commute disjunctive_add or.commute push_bit_eq_mult take_bit_eq_self_iff_drop_bit_eq_0 take_bit_nat_eq_self bit_push_bit_iff_nat  bit_take_bit_iff not_less)
  then show ?thesis
    by (simp only: of_nat_or_eq of_nat_push_bit)
qed

lemma digitsValue_Nil [simp]: "digitsValue k [] = 0"
  by (simp add: digitsValue_def)

lemma digitsValue_snoc [simp]: "digitsValue k (ds @ [d]) = digitsValue k ds * 2 ^ k + d"
  by (simp add: digitsValue_def)

lemma digitsValue_inj:
  assumes "length xs = length ys"
      and "\<forall>x \<in> set xs. x < 2 ^ k" and "\<forall>y \<in> set ys. y < 2 ^ k"
      and "digitsValue k xs = digitsValue k ys"
  shows "xs = ys"
  using assms
proof (induction xs arbitrary: ys rule: rev_induct)
  case Nil
  then show ?case by simp
next
  case (snoc x xs)
  then obtain y ys' where ys: "ys = ys' @ [y]"
    by (cases ys rule: rev_cases) auto
  from snoc.prems have x: "x < 2 ^ k" and y: "y < 2 ^ k"
    and eq: "digitsValue k xs * 2 ^ k + x = digitsValue k ys' * 2 ^ k + y"
    by (simp_all add: ys)
  from eq have "(digitsValue k xs * 2 ^ k + x) mod 2 ^ k = (digitsValue k ys' * 2 ^ k + y) mod 2 ^ k"
    by simp
  then have xy: "x = y" using x y by simp
  from eq have "(digitsValue k xs * 2 ^ k + x) div 2 ^ k = (digitsValue k ys' * 2 ^ k + y) div 2 ^ k"
    by simp
  then have "digitsValue k xs = digitsValue k ys'" using x y by simp
  then have "xs = ys'"
    using snoc.IH [of ys'] snoc.prems by (simp add: ys)
  then show ?case by (simp add: ys xy)
qed

lemma emit_invariant:
  assumes "0 < outBits" and "bits \<le> 31"
      and "digitsValue outBits result = N div 2 ^ bits"
      and "\<forall>x \<in> set result. x < 2 ^ outBits"
      and "emit outBits (word_of_nat N) bits result = (bits', result')"
  shows "bits' = bits mod outBits \<and> digitsValue outBits result' = N div 2 ^ bits' \<and>
         length result' = length result + bits div outBits \<and>
         (\<forall>x \<in> set result'. x < 2 ^ outBits)"
  using assms
proof (induction outBits "word_of_nat N :: 32 word" bits result rule: emit.induct)
  case (1 outBits bits result)
  show ?case
  proof (cases "outBits \<le> bits")
    case False
    then show ?thesis using "1.prems" by (subst (asm) emit.simps) auto
  next
    case True
    let ?b = "bits - outBits"
    let ?x = "unat (signed_drop_bit ?b (word_of_nat N :: 32 word) AND mask outBits)"
    have x: "?x = (N div 2 ^ ?b) mod 2 ^ outBits"
      by (rule extract_bits) (use True "1.prems" in auto)
    have split: "N div 2 ^ ?b = (N div 2 ^ bits) * 2 ^ outBits + (N div 2 ^ ?b) mod 2 ^ outBits"
    proof -
      have "N div 2 ^ bits = (N div 2 ^ ?b) div 2 ^ outBits"
        using True by (simp add: div_mult2_eq [symmetric] power_add [symmetric])
      then show ?thesis by (simp only: div_mult_mod_eq)
    qed
    have rec: "emit outBits (word_of_nat N) ?b (result @ [?x]) = (bits', result')"
      using "1.prems" True by (subst (asm) emit.simps) simp
    have "bits' = ?b mod outBits \<and> digitsValue outBits result' = N div 2 ^ bits' \<and>
         length result' = length (result @ [?x]) + ?b div outBits \<and>
         (\<forall>x \<in> set result'. x < 2 ^ outBits)"
    proof (rule "1.hyps")
      show "0 < outBits \<and> outBits \<le> bits" using True "1.prems" by simp
      show "0 < outBits" using "1.prems" by simp
      show "?b \<le> 31" using "1.prems" by simp
      show "digitsValue outBits (result @ [?x]) = N div 2 ^ ?b"
        using "1.prems"(3) split x by simp
      show "\<forall>x \<in> set (result @ [?x]). x < 2 ^ outBits"
        using "1.prems"(4) x by auto
      show "emit outBits (word_of_nat N) ?b (result @ [?x]) = (bits', result')" by (rule rec)
    qed
    moreover have "?b mod outBits = bits mod outBits"
      using True by (simp add: le_mod_geq)
    moreover have "Suc (?b div outBits) = bits div outBits"
      using True "1.prems"(1) by (simp add: le_div_geq)
    ultimately show ?thesis by auto
  qed
qed

lemma pad_zero:
  assumes "bits \<le> k" and "(N * 2 ^ (k - bits)) mod 2 ^ k = (0::nat)"
  shows "N mod 2 ^ bits = 0"
proof -
  have "(2::nat) ^ k = 2 ^ bits * 2 ^ (k - bits)"
    using assms(1) by (simp add: power_add [symmetric])
  then have "(N * 2 ^ (k - bits)) mod 2 ^ k = (N mod 2 ^ bits) * 2 ^ (k - bits)"
    by (simp only: mod_mult_mult2)
  with assms(2) show ?thesis by simp
qed

lemma pad_value:
  assumes "bits \<le> k"
  shows "(M div 2 ^ bits) * 2 ^ k + (M * 2 ^ (k - bits)) mod 2 ^ k = (M::nat) * 2 ^ (k - bits)"
proof -
  have p: "(2::nat) ^ k = 2 ^ bits * 2 ^ (k - bits)"
    using assms(1) by (simp add: power_add [symmetric])
  have "(M * 2 ^ (k - bits)) mod 2 ^ k = (M mod 2 ^ bits) * 2 ^ (k - bits)"
    by (simp only: p mod_mult_mult2)
  moreover have "(M div 2 ^ bits) * 2 ^ k = (M div 2 ^ bits * 2 ^ bits) * 2 ^ (k - bits)"
    by (simp only: p mult.assoc)
  ultimately have "(M div 2 ^ bits) * 2 ^ k + (M * 2 ^ (k - bits)) mod 2 ^ k =
      (M div 2 ^ bits * 2 ^ bits + M mod 2 ^ bits) * 2 ^ (k - bits)"
    by (simp only: distrib_right)
  then show ?thesis by (simp only: div_mult_mod_eq)
qed

lemma pad_same:
  assumes "r < 5" and "r' < 5" and "8 * m + r = 5 * n" and "5 * n' = 8 * m + (r'::nat)"
  shows "r' = r \<and> n' = n"
proof -
  have "5 * n' + r = 5 * n + r'" using assms(3,4) by simp
  then have "(5 * n' + r) mod 5 = (5 * n + r') mod 5" by simp
  then have "r = r'" using assms(1,2) by simp
  then show ?thesis using \<open>5 * n' + r = 5 * n + r'\<close> by simp
qed

lemma convert_loop_invariant:
  assumes "convert_inv inBits outBits ds s"
      and "\<forall>d \<in> set data. d < 2 ^ inBits"
      and "0 < outBits" and "inBits + outBits \<le> 32"
  shows "convert_inv inBits outBits (ds @ data) (convert_loop inBits outBits data s)"
  using assms(1,2)
proof (induction data arbitrary: ds s)
  case Nil
  then show ?case by simp
next
  case (Cons d data)
  obtain value' bits result where s: "s = (value', bits, result)" by (cases s)
  let ?N = "digitsValue inBits ds" and ?N' = "digitsValue inBits (ds @ [d])"
  from Cons.prems(1) have inv: "value' = word_of_nat ?N" "bits < outBits"
      "digitsValue outBits result = ?N div 2 ^ bits"
      "length result * outBits + bits = inBits * length ds"
      "\<forall>x \<in> set result. x < 2 ^ outBits"
    by (simp_all add: convert_inv_def s)
  have d: "d < 2 ^ inBits" using Cons.prems(2) by simp
  have v: "push_bit inBits value' OR word_of_nat d = (word_of_nat ?N' :: 32 word)"
    using shift_in [OF d, of ?N] inv(1) by simp
  obtain bits' result' where e: "emit outBits (word_of_nat ?N') (bits + inBits) result = (bits', result')"
    by (cases "emit outBits (word_of_nat ?N' :: 32 word) (bits + inBits) result")
  have "?N' div 2 ^ (bits + inBits) = ?N div 2 ^ bits"
  proof -
    have "(2::nat) ^ (bits + inBits) = 2 ^ inBits * 2 ^ bits"
      by (simp add: power_add)
    then have "?N' div 2 ^ (bits + inBits) = (?N' div 2 ^ inBits) div 2 ^ bits"
      by (simp only: div_mult2_eq)
    also have "?N' div 2 ^ inBits = ?N" using d by simp
    finally show ?thesis .
  qed
  then have "digitsValue outBits result = ?N' div 2 ^ (bits + inBits)"
    using inv(3) by simp
  from emit_invariant [OF assms(3) _ this inv(5) e]
  have em: "bits' = (bits + inBits) mod outBits" "digitsValue outBits result' = ?N' div 2 ^ bits'"
      "length result' = length result + (bits + inBits) div outBits"
      "\<forall>x \<in> set result'. x < 2 ^ outBits"
    using inv(2) assms(4) by auto
  have len: "length result' * outBits + bits' = inBits * length (ds @ [d])"
  proof -
    have "length result' * outBits + bits' =
          length result * outBits + ((bits + inBits) div outBits * outBits + (bits + inBits) mod outBits)"
      by (simp add: em(1,3) algebra_simps)
    also have "\<dots> = length result * outBits + (bits + inBits)"
      by (simp only: div_mult_mod_eq)
    finally show ?thesis using inv(4) by (simp add: algebra_simps)
  qed
  have "convert_inv inBits outBits (ds @ [d]) (word_of_nat ?N', bits', result')"
    using em len assms(3) by (simp add: convert_inv_def)
  moreover have "\<forall>d \<in> set data. d < 2 ^ inBits" using Cons.prems(2) by simp
  ultimately have "convert_inv inBits outBits ((ds @ [d]) @ data)
          (convert_loop inBits outBits data (word_of_nat ?N', bits', result'))"
    by (rule Cons.IH)
  then show ?case
    unfolding s convert_loop.simps v Let_def e prod.case
    by (simp only: append_assoc append_Cons append_Nil)
qed

lemma convert_loop_result:
  assumes "\<forall>d \<in> set data. d < 2 ^ inBits" and "0 < outBits" and "inBits + outBits \<le> 32"
  shows "convert_inv inBits outBits data (convert_loop inBits outBits data (0, 0, []))"
proof -
  have "convert_inv inBits outBits [] (0, 0, [])"
    using assms(2) by (simp add: convert_inv_def)
  from convert_loop_invariant [OF this assms] show ?thesis by simp
qed

lemma fromWords_Inr:
  assumes "fromWords ws = Inr bs" and "\<forall>w \<in> set ws. w < 32"
  obtains r where "r < 5" and "8 * length bs + r = 5 * length ws"
    and "digitsValue 5 ws = digitsValue 8 bs * 2 ^ r"
    and "\<forall>b \<in> set bs. b < 256"
proof -
  obtain value' bits result where s: "convert_loop 5 8 ws (0, 0, []) = (value', bits, result)"
    by (cases "convert_loop 5 8 ws (0, 0, [])")
  have "convert_inv 5 8 ws (value', bits, result)"
    using convert_loop_result [of ws 5 8] assms(2) by (simp add: s)
  then have inv: "value' = word_of_nat (digitsValue 5 ws)" "bits < 8"
      "digitsValue 8 result = digitsValue 5 ws div 2 ^ bits"
      "length result * 8 + bits = 5 * length ws"
      "\<forall>x \<in> set result. x < 256"
    by (simp_all add: convert_inv_def)
  from assms(1) have r: "bits < 5" and z: "push_bit (8 - bits) value' AND mask 8 = 0" and bs: "bs = result"
    by (auto simp: fromWords_def convert_def s split: if_splits)
  have "unat (push_bit (8 - bits) value' AND mask 8) = (digitsValue 5 ws * 2 ^ (8 - bits)) mod 2 ^ 8"
    unfolding inv(1) by (rule pad_bits) simp
  then have "(digitsValue 5 ws * 2 ^ (8 - bits)) mod 2 ^ 8 = 0"
    using z by simp
  then have "digitsValue 5 ws mod 2 ^ bits = 0"
    by (rule pad_zero [rotated]) (use r in simp)
  then have "digitsValue 5 ws = digitsValue 8 result * 2 ^ bits"
    using inv(3) div_mult_mod_eq [of "digitsValue 5 ws" "2 ^ bits"] by simp
  then show thesis
    using that [of bits] r inv(4,5) bs by (simp add: mult.commute)
qed

lemma toWords_Inr:
  assumes "\<forall>b \<in> set bs. b < 256"
  obtains ws' r where "toWords bs = Inr ws'" and "r < 5" and "5 * length ws' = 8 * length bs + r"
    and "digitsValue 5 ws' = digitsValue 8 bs * 2 ^ r"
    and "\<forall>w \<in> set ws'. w < 32"
proof -
  obtain value' bits result where s: "convert_loop 8 5 bs (0, 0, []) = (value', bits, result)"
    by (cases "convert_loop 8 5 bs (0, 0, [])")
  let ?M = "digitsValue 8 bs"
  have "convert_inv 8 5 bs (value', bits, result)"
    using convert_loop_result [of bs 8 5] assms by (simp add: s)
  then have inv: "value' = word_of_nat ?M" "bits < 5"
      "digitsValue 5 result = ?M div 2 ^ bits"
      "length result * 5 + bits = 8 * length bs"
      "\<forall>x \<in> set result. x < 32"
    by (simp_all add: convert_inv_def)
  show thesis
  proof (cases "bits = 0")
    case True
    then have "toWords bs = Inr result" by (simp add: toWords_def convert_def s)
    then show ?thesis
      using that [of result 0] inv True by simp
  next
    case False
    let ?x = "unat (push_bit (5 - bits) value' AND mask 5)"
    have x: "?x = (?M * 2 ^ (5 - bits)) mod 2 ^ 5"
      unfolding inv(1) by (rule pad_bits) simp
    have tw: "toWords bs = Inr (result @ [?x])"
      using False by (simp add: toWords_def convert_def s)
    have val: "(?M div 2 ^ bits) * 2 ^ 5 + (?M * 2 ^ (5 - bits)) mod 2 ^ 5 = ?M * 2 ^ (5 - bits)"
      by (rule pad_value) (use inv(2) in simp)
    have "digitsValue 5 (result @ [?x]) = ?M * 2 ^ (5 - bits)"
      using val inv(3) x by simp
    moreover have "5 * length (result @ [?x]) = 8 * length bs + (5 - bits)"
      using inv(2,4) by simp
    moreover have "\<forall>w \<in> set (result @ [?x]). w < 32"
      using inv(5) x by auto
    ultimately show ?thesis
      using that [of "result @ [?x]" "5 - bits"] tw False by simp
  qed
qed

lemma toWords_fromWords:
  assumes "fromWords ws = Inr bs" and "\<forall>w \<in> set ws. w < 32"
  shows "toWords bs = Inr ws"
proof -
  from assms obtain r where r: "r < 5" "8 * length bs + r = 5 * length ws"
    "digitsValue 5 ws = digitsValue 8 bs * 2 ^ r" "\<forall>b \<in> set bs. b < 256"
    by (rule fromWords_Inr)
  from r(4) obtain ws' r' where w: "toWords bs = Inr ws'" "r' < 5"
    "5 * length ws' = 8 * length bs + r'"
    "digitsValue 5 ws' = digitsValue 8 bs * 2 ^ r'" "\<forall>w \<in> set ws'. w < 32"
    by (rule toWords_Inr)
  have "r' = r \<and> length ws' = length ws"
    using r(1) w(2) r(2) w(3) by (rule pad_same)
  then have "length ws' = length ws" "digitsValue 5 ws' = digitsValue 5 ws"
    using r(3) w(4) by simp_all
  then have "ws' = ws"
    using digitsValue_inj [of ws' ws 5] assms(2) w(5) by simp
  then show ?thesis using w(1) by simp
qed

lemma digitsValue_less:
  assumes "\<forall>d \<in> set ds. d < 2 ^ k"
  shows "digitsValue k ds < 2 ^ (k * length ds)"
  using assms
proof (induction ds rule: rev_induct)
  case Nil
  then show ?case by simp
next
  case (snoc d ds)
  then have "digitsValue k ds < 2 ^ (k * length ds)" and d: "d < 2 ^ k" by simp_all
  then have "digitsValue k ds + 1 \<le> 2 ^ (k * length ds)" by simp
  then have "(digitsValue k ds + 1) * 2 ^ k \<le> 2 ^ (k * length ds) * 2 ^ k"
    by (rule mult_le_mono1)
  then have "digitsValue k ds * 2 ^ k + d < 2 ^ (k * length ds) * 2 ^ k"
    using d by (simp add: algebra_simps)
  then show ?case by (simp add: power_add mult.commute)
qed

lemma digitsValue_nth:
  assumes "\<forall>d \<in> set ds. d < 2 ^ k" and "i < length ds"
  shows "(digitsValue k ds div 2 ^ (k * (length ds - Suc i))) mod 2 ^ k = ds ! i"
  using assms
proof (induction ds rule: rev_induct)
  case Nil
  then show ?case by simp
next
  case (snoc d ds)
  show ?case
  proof (cases "i = length ds")
    case True
    then show ?thesis using snoc.prems by simp
  next
    case False
    then have i: "i < length ds" using snoc.prems by simp
    then have e: "length ds - i = Suc (length ds - Suc i)"
      by simp
    have "(digitsValue k ds * 2 ^ k + d) div 2 ^ (k + k * (length ds - Suc i)) =
          ((digitsValue k ds * 2 ^ k + d) div 2 ^ k) div 2 ^ (k * (length ds - Suc i))"
      by (simp only: power_add div_mult2_eq)
    also have "(digitsValue k ds * 2 ^ k + d) div 2 ^ k = digitsValue k ds"
      using snoc.prems by simp
    finally show ?thesis
      using snoc.IH i snoc.prems by (simp add: e nth_append)
  qed
qed

lemma polymodStep_xor:
  assumes "d < 2 ^ 25"
  shows "polymodStep (x XOR word_of_nat d) = polymodStep x XOR push_bit 5 (word_of_nat d)"
proof -
  have high: "\<not> bit (word_of_nat d :: 32 word) n" if "25 \<le> n" for n
  proof -
    have "d < 2 ^ n" using assms that
      by (meson less_le_trans one_le_numeral power_increasing)
    then have "\<not> bit d n" by (simp add: bit_iff_odd)
    then show ?thesis by (simp add: bit_of_nat_iff)
  qed
  have highn: "\<not> bit d n" if "25 \<le> n" for n
  proof -
    have "d < 2 ^ n" using assms that
      by (meson less_le_trans one_le_numeral power_increasing)
    then show ?thesis by (simp add: bit_iff_odd)
  qed
  have a: "signed_drop_bit 25 (x XOR word_of_nat d) = signed_drop_bit 25 x"
    by (rule bit_eqI) (auto simp add: bit_signed_drop_bit_iff bit_simps highn)
  have b: "(x XOR word_of_nat d) AND 0x1ffffff = (x AND 0x1ffffff) XOR (word_of_nat d :: 32 word)"
  proof -
    have "(word_of_nat d :: 32 word) AND mask 25 = word_of_nat d"
      by (rule bit_eqI) (use highn in \<open>auto simp: bit_simps not_less [symmetric]\<close>)
    moreover have "(0x1ffffff :: 32 word) = mask 25" by (simp add: mask_eq_exp_minus_1)
    ultimately show ?thesis by (simp add: bit.conj_xor_distrib2)
  qed
  show ?thesis
    unfolding polymodStep_def Let_def a b
    by (simp add: push_bit_xor ac_simps)
qed

lemma shift_in_xor:
  assumes "d < 2 ^ i"
  shows "push_bit i (word_of_nat N :: 32 word) XOR word_of_nat d = word_of_nat (N * 2 ^ i + d)"
proof -
  have "push_bit i (word_of_nat N :: 32 word) XOR word_of_nat d =
        push_bit i (word_of_nat N) OR word_of_nat d"
  proof (rule bit_eqI)
    fix n
    have "\<not> (bit (push_bit i (word_of_nat N :: 32 word)) n \<and> bit (word_of_nat d :: 32 word) n)"
    proof (cases "n < i")
      case True
      then show ?thesis by (simp add: bit_push_bit_iff)
    next
      case False
      then have "d < 2 ^ n" using assms
        by (meson less_le_trans not_less one_le_numeral power_increasing)
      then have "\<not> bit d n" by (simp add: bit_iff_odd)
      then show ?thesis by (simp add: bit_of_nat_iff)
    qed
    then show "bit (push_bit i (word_of_nat N :: 32 word) XOR word_of_nat d) n =
               bit (push_bit i (word_of_nat N :: 32 word) OR word_of_nat d) n"
      by (auto simp: bit_xor_iff bit_or_iff)
  qed
  then show ?thesis using shift_in [OF assms] by simp
qed

lemma fold_chkStep:
  assumes "length vs \<le> 6" and "\<forall>v \<in> set vs. v < 32"
  shows "fold chkStep vs S = (polymodStep ^^ length vs) S XOR word_of_nat (digitsValue 5 vs)"
  using assms
proof (induction vs rule: rev_induct)
  case Nil
  then show ?case by simp
next
  case (snoc v vs)
  then have IH: "fold chkStep vs S = (polymodStep ^^ length vs) S XOR word_of_nat (digitsValue 5 vs)"
    and v: "v < 2 ^ 5" and vs: "\<forall>v \<in> set vs. v < 2 ^ 5" and len: "length vs \<le> 5"
    by simp_all
  have "digitsValue 5 vs < 2 ^ (5 * length vs)" by (rule digitsValue_less [OF vs])
  also have "(2::nat) ^ (5 * length vs) \<le> 2 ^ 25"
    using len by (intro power_increasing) simp_all
  finally have small: "digitsValue 5 vs < 2 ^ 25" .
  have "fold chkStep (vs @ [v]) S = polymodStep (fold chkStep vs S) XOR word_of_nat v"
    by (simp add: chkStep_def)
  also have "\<dots> = polymodStep ((polymodStep ^^ length vs) S) XOR
      (push_bit 5 (word_of_nat (digitsValue 5 vs)) XOR word_of_nat v)"
    by (simp only: IH polymodStep_xor [OF small] xor.assoc)
  also have "push_bit 5 (word_of_nat (digitsValue 5 vs) :: 32 word) XOR word_of_nat v =
      word_of_nat (digitsValue 5 (vs @ [v]))"
    using shift_in_xor [OF v] by simp
  finally show ?case by simp
qed

lemma checksum_digits:
  assumes "length cs = 6" and "\<forall>c \<in> set cs. c < 32" and "fold chkStep cs S = 1"
  shows "map (\<lambda>i. unat (signed_drop_bit ((5 - i) * 5) ((polymodStep ^^ 6) S XOR 1) AND 0x1f)) [0..<6] = cs"
proof -
  let ?N = "digitsValue 5 cs"
  have "(polymodStep ^^ 6) S XOR word_of_nat ?N = 1"
    using fold_chkStep [of cs S] assms by simp
  then have "(polymodStep ^^ 6) S XOR 1 =
      (polymodStep ^^ 6) S XOR ((polymodStep ^^ 6) S XOR word_of_nat ?N)"
    by simp
  also have "\<dots> = word_of_nat ?N"
    by (simp add: xor.assoc [symmetric])
  finally have e: "(polymodStep ^^ 6) S XOR 1 = word_of_nat ?N" .
  have cs: "\<forall>c \<in> set cs. c < 2 ^ 5" using assms(2) by simp
  have digit: "unat (signed_drop_bit ((5 - i) * 5) (word_of_nat ?N :: 32 word) AND 0x1f) = cs ! i"
    if "i < 6" for i
  proof -
    have m: "(0x1f :: 32 word) = mask 5" by (simp add: mask_eq_exp_minus_1)
    have x: "(5 - i) * 5 = 5 * (length cs - Suc i)"
      using assms(1) that by simp
    have "unat (signed_drop_bit ((5 - i) * 5) (word_of_nat ?N :: 32 word) AND mask 5) =
          (?N div 2 ^ ((5 - i) * 5)) mod 2 ^ 5"
      by (rule extract_bits) (use that in simp)
    also have "\<dots> = cs ! i"
      unfolding x by (rule digitsValue_nth [OF cs]) (use assms(1) that in simp)
    finally show ?thesis unfolding m .
  qed
  show ?thesis
    unfolding e
    by (rule nth_equalityI) (use assms(1) digit in \<open>simp_all del: upt_Suc\<close>)
qed

lemma toLowerCase_take:
  assumes "toLowerCase a = a"
  shows "toLowerCase (take n a) = take n a"
proof -
  have "toLowerCase (take n a) = take n (toLowerCase a)"
    by (simp add: toLowerCase_def take_map)
  then show ?thesis using assms by simp
qed

lemma lastIndexOf_Some:
  assumes "lastIndexOf str c = Some i"
  shows "i < length str \<and> str ! i = c"
proof -
  let ?P = "\<lambda>x. x \<noteq> c"
  from assms obtain x front where d: "dropWhile ?P (rev str) = x # front"
    and i: "i = length front"
    by (auto simp: lastIndexOf_def split: list.splits)
  have "\<not> ?P (hd (dropWhile ?P (rev str)))"
    by (rule hd_dropWhile) (simp add: d)
  then have x: "x = c" by (simp add: d)
  have "takeWhile ?P (rev str) @ dropWhile ?P (rev str) = rev str"
    by (rule takeWhile_dropWhile_id)
  then have "rev (rev str) = rev (takeWhile ?P (rev str) @ c # front)"
    by (simp only: d x)
  then have "str = rev front @ c # rev (takeWhile ?P (rev str))"
    by simp
  then obtain tail where "str = rev front @ c # tail" by blast
  then show ?thesis by (simp add: i nth_append)
qed

lemma map_of_zip_upt:
  assumes "map_of (zip xs [0..<length xs]) c = Some v"
  shows "v < length xs \<and> xs ! v = c"
proof -
  from assms have "(c, v) \<in> set (zip xs [0..<length xs])" by (rule map_of_SomeD)
  then obtain i where "i < length xs" "xs ! i = c" "[0..<length xs] ! i = v"
    by (auto simp: in_set_zip)
  then show ?thesis by simp
qed

lemma ALPHABET_MAP_Some:
  assumes "ALPHABET_MAP c = Some v"
  shows "v < 32 \<and> ALPHABET ! v = c"
proof -
  have len: "length ALPHABET = 32" by (simp add: ALPHABET_def)
  have "map_of (zip ALPHABET [0..<length ALPHABET]) c = Some v"
    using assms by (simp only: ALPHABET_MAP_def len)
  from map_of_zip_upt [OF this] show ?thesis by (simp only: len)
qed

lemma bytes_unat:
  assumes "\<forall>b \<in> set bs. b < 256"
  shows "map unat (map word_of_nat bs :: byte list) = bs"
proof -
  have "unat (word_of_nat b :: byte) = b" if "b \<in> set bs" for b
    using assms that by (simp add: unat_of_nat)
  then show ?thesis by (simp add: map_idI)
qed

lemma bech32_decode_Inr:
  assumes "bech32_decode a = Inr (p, words)" and "toLowerCase a = a"
  obtains split chk0 where "lastIndexOf a CHR ''1'' = Some split"
    and "p = take split a" and "6 \<le> length (drop (split + 1) a)"
    and "prefixChk p = Inr chk0"
    and "\<forall>c \<in> set (drop (split + 1) a). ALPHABET_MAP c \<noteq> None"
    and "fold (\<lambda>v chk. polymodStep chk XOR word_of_nat v)
           (map (\<lambda>c. case ALPHABET_MAP c of None \<Rightarrow> 0 | Some v \<Rightarrow> v) (drop (split + 1) a)) chk0 = 1"
    and "words = take (length (drop (split + 1) a) - 6)
           (map (\<lambda>c. case ALPHABET_MAP c of None \<Rightarrow> 0 | Some v \<Rightarrow> v) (drop (split + 1) a))"
  using assms
  unfolding bech32_decode_def Let_def
  by (simp split: if_splits option.splits sum.splits)

lemma bech32_roundtrip:
  assumes dec: "cosmjs_fromBech32 a = Inr (p, data)"
      and low: "toLowerCase a = a" and len: "length a \<le> 90"
  shows "cosmjs_toBech32 p data = Inr a"
proof -
  let ?val = "\<lambda>c. case ALPHABET_MAP c of None \<Rightarrow> 0 | Some v \<Rightarrow> v"
  from dec obtain words bs where d1: "bech32_decode a = Inr (p, words)"
    and d2: "fromWords words = Inr bs" and d3: "data = map word_of_nat bs"
    by (auto simp: cosmjs_fromBech32_def split: sum.splits prod.splits)
  from d1 low obtain split chk0 where split: "lastIndexOf a CHR ''1'' = Some split"
    and p: "p = take split a" and six: "6 \<le> length (drop (split + 1) a)"
    and chk0: "prefixChk p = Inr chk0"
    and known: "\<forall>c \<in> set (drop (split + 1) a). ALPHABET_MAP c \<noteq> None"
    and sum1: "fold (\<lambda>v chk. polymodStep chk XOR word_of_nat v) (map ?val (drop (split + 1) a)) chk0 = 1"
    and words: "words = take (length (drop (split + 1) a) - 6) (map ?val (drop (split + 1) a))"
    by (rule bech32_decode_Inr)
  let ?wc = "drop (split + 1) a"
  let ?vs = "map ?val ?wc"
  let ?cs = "drop (length ?wc - 6) ?vs"
  have fold_eq: "fold (\<lambda>v chk. polymodStep chk XOR word_of_nat v) xs s = fold chkStep xs s" for xs s
    by (simp add: chkStep_def [abs_def])
  from lastIndexOf_Some [OF split] have sp: "split < length a" "a ! split = CHR ''1''"
    by simp_all
  have a: "a = p @ ''1'' @ ?wc"
    using id_take_nth_drop [OF sp(1)] sp(2) by (simp add: p)
  have vs: "v < 32" if "v \<in> set ?vs" for v
    using that known ALPHABET_MAP_Some by (auto split: option.splits)
  have chars: "map ((!) ALPHABET) ?vs = ?wc"
  proof -
    have "ALPHABET ! ?val c = c" if "c \<in> set ?wc" for c
      using that known ALPHABET_MAP_Some by (auto split: option.splits)
    then show ?thesis by (simp add: map_idI)
  qed
  have vs_split: "?vs = words @ ?cs" by (simp add: words)
  have w32: "\<forall>w \<in> set words. w < 32"
    using vs by (auto simp: words dest: in_set_takeD)
  have cs: "length ?cs = 6" "\<forall>c \<in> set ?cs. c < 32"
    using six vs by (auto dest: in_set_dropD)
  have tw: "toWords bs = Inr words"
    by (rule toWords_fromWords [OF d2 w32])
  have bsb: "\<forall>b \<in> set bs. b < 256"
    using d2 w32 by (rule fromWords_Inr) simp
  have "map unat data = bs" unfolding d3 by (rule bytes_unat [OF bsb])
  then have enc: "cosmjs_toBech32 p data = bech32_encode p words"
    by (simp add: cosmjs_toBech32_def tw)
  have lw: "length words = length ?wc - 6" by (simp add: words)
  have limit: "\<not> 90 < length p + 7 + length words"
  proof -
    have "length a = length p + 1 + length ?wc" by (subst a) simp
    then show ?thesis using six len lw by simp
  qed
  have lp: "toLowerCase p = p" unfolding p by (rule toLowerCase_take [OF low])
  have five: "\<not> (\<exists>x \<in> set words. drop_bit 5 x \<noteq> 0)"
    using w32 by (auto simp: drop_bit_eq_div)
  have "fold chkStep ?cs (fold chkStep words chk0) = 1"
    using sum1 unfolding fold_eq by (subst (asm) vs_split) simp
  from checksum_digits [OF cs this]
  have digits: "map (\<lambda>i. unat (signed_drop_bit ((5 - i) * 5)
                  ((polymodStep ^^ 6) (fold chkStep words chk0) XOR 1) AND 0x1f)) [0..<6] = ?cs" .
  have "bech32_encode p words =
      Inr (p @ ''1'' @ map ((!) ALPHABET) words @
           map ((!) ALPHABET) (map (\<lambda>i. unat (signed_drop_bit ((5 - i) * 5)
                  ((polymodStep ^^ 6) (fold chkStep words chk0) XOR 1) AND 0x1f)) [0..<6]))"
    unfolding bech32_encode_def Let_def lp fold_eq
    using limit five chk0 by (simp add: comp_def del: upt_Suc funpow.simps)
  also have "\<dots> = Inr (p @ ''1'' @ map ((!) ALPHABET) (words @ ?cs))"
    by (simp only: digits map_append)
  also have "\<dots> = Inr a"
    by (simp only: vs_split [symmetric] chars a [symmetric])
  finally show ?thesis using enc by simp
qed

lemma select_generator:
  assumes "j < 7"
  shows "- (signed_drop_bit j (signed_drop_bit 25 (pre :: 32 word)) AND 1) AND g =
         (if odd (unat pre div 2 ^ 25 div 2 ^ j) then g else 0)"
proof -
  have "bit (signed_drop_bit j (signed_drop_bit 25 pre)) 0 = bit pre (25 + j)"
    using assms by (simp add: bit_signed_drop_bit_iff add.commute)
  also have "\<dots> = bit (unat pre) (25 + j)"
    by (simp add: bit_unsigned_iff)
  also have "\<dots> = odd (unat pre div 2 ^ 25 div 2 ^ j)"
    by (simp add: bit_iff_odd power_add div_mult2_eq)
  finally have b: "bit (signed_drop_bit j (signed_drop_bit 25 pre)) 0 =
      odd (unat pre div 2 ^ 25 div 2 ^ j)" .
  have "signed_drop_bit j (signed_drop_bit 25 pre) AND 1 =
      of_bool (bit (signed_drop_bit j (signed_drop_bit 25 pre)) 0)"
    by (simp add: and_one_eq bit_0 mod_2_eq_odd)
  then show ?thesis
    unfolding b by simp
qed

lemma masked_part:
  "push_bit 5 ((pre :: 32 word) AND 0x1ffffff) = word_of_nat ((unat pre mod 2 ^ 25) * 32)"
proof -
  have "(0x1ffffff :: 32 word) = mask 25" by (simp add: mask_eq_exp_minus_1)
  then have "pre AND 0x1ffffff = take_bit 25 pre" by (simp add: take_bit_eq_mask)
  also have "\<dots> = word_of_nat (take_bit 25 (unat pre))"
    by (simp add: unsigned_take_bit_eq [symmetric] del: unsigned_take_bit_eq)
  finally show ?thesis
    by (simp add: push_bit_eq_mult take_bit_eq_mod)
qed

lemma polymodStep_nat: "polymodStep pre = word_of_nat (polymod_nat (unat pre))"
proof -
  have g: "- (signed_drop_bit j (signed_drop_bit 25 pre) AND 1) AND word_of_nat n =
         word_of_nat (if odd (unat pre div 2 ^ 25 div 2 ^ j) then n else 0)" if "j < 7" for j n
    using select_generator [OF that, of pre "word_of_nat n"] by simp
  show ?thesis
    unfolding polymodStep_def polymod_nat_def Let_def of_nat_xor_eq masked_part [symmetric]
    using g [of 0 "0x3b6a57b2"] g [of 1 "0x26508e6d"] g [of 2 "0x1ea119fa"]
      g [of 3 "0x3d4233dd"] g [of 4 "0x2a1462b3"]
    by simp
qed

lemma char_high: "signed_drop_bit 5 (word_of_nat (of_char c) :: 32 word) = word_of_nat (of_char c div 32)"
proof -
  have "unat (signed_drop_bit 5 (word_of_nat (of_char c) :: 32 word) AND mask 8) = (of_char c div 2 ^ 5) mod 2 ^ 8"
    by (rule extract_bits) simp
  moreover have "signed_drop_bit 5 (word_of_nat (of_char c) :: 32 word) AND mask 8 =
      signed_drop_bit 5 (word_of_nat (of_char c) :: 32 word)"
  proof (rule bit_eqI)
    fix n
    have "\<not> bit (of_char c :: nat) k" if "8 \<le> k" for k
    proof -
      have "(of_char c :: nat) < 2 ^ 8" by simp
      also have "(2::nat) ^ 8 \<le> 2 ^ k" using that by (intro power_increasing) simp_all
      finally show ?thesis by (simp add: bit_iff_odd)
    qed
    then have h: "\<not> bit (of_char c :: nat) (5 + k)" if "8 \<le> k" for k
      using that by simp
    have h31: "\<not> bit (of_char c :: nat) 31" using h [of 26] by simp
    from h have "n < 8" if "bit (of_char c :: nat) (5 + n)"
      using that not_less by blast
    with h31 show "bit (signed_drop_bit 5 (word_of_nat (of_char c) :: 32 word) AND mask 8) n =
               bit (signed_drop_bit 5 (word_of_nat (of_char c) :: 32 word)) n"
      by (auto simp: bit_simps bit_signed_drop_bit_iff)
  qed
  moreover have "(of_char c div 2 ^ 5) mod 2 ^ 8 = (of_char c :: nat) div 32"
  proof -
    have "(of_char c :: nat) div 32 \<le> of_char c" by (rule div_le_dividend)
    also have "(of_char c :: nat) < 256" by simp
    finally have "(of_char c :: nat) div 32 < 256" .
    then show ?thesis by simp
  qed
  ultimately have "unat (signed_drop_bit 5 (word_of_nat (of_char c) :: 32 word)) = of_char c div 32"
    by simp
  moreover have "word_of_nat (unat (signed_drop_bit 5 (word_of_nat (of_char c) :: 32 word))) =
      signed_drop_bit 5 (word_of_nat (of_char c) :: 32 word)"
    by simp
  ultimately show ?thesis by simp
qed

lemma char_low: "(word_of_nat (of_char c) :: 32 word) AND 0x1f = word_of_nat (of_char c mod 32)"
proof -
  have "(0x1f :: 32 word) = word_of_nat (mask 5)" by (simp add: mask_eq_exp_minus_1)
  then have "(word_of_nat (of_char c) :: 32 word) AND 0x1f = word_of_nat (of_char c AND mask 5)"
    by (simp only: of_nat_and_eq)
  then show ?thesis by (simp add: take_bit_eq_mask [symmetric] take_bit_eq_mod)
qed

lemma prefixChk_eval:
  "prefixChk p =
     (if \<exists>c \<in> set p. of_char c < (33::nat) \<or> (126::nat) < of_char c then Inl DecodingError
      else Inr (fold (\<lambda>v chk. polymodStep chk XOR word_of_nat v)
                  (map (\<lambda>c. of_char c div 32) p @ [0] @ map (\<lambda>c. of_char c mod 32) p) 1))"
  by (simp add: prefixChk_def Let_def char_high char_low fold_map comp_def)

lemma prefixChk_neutron: "prefixChk ''neutron'' = Inr 222322187"
proof -
  have "map (\<lambda>c. of_char c div 32) ''neutron'' @ [0] @ map (\<lambda>c. of_char c mod 32) ''neutron'' =
      [3, 3, 3, 3, 3, 3, 3, 0, 14, 5, 21, 20, 18, 15, 14 :: nat]"
    by simp
  moreover have "fold (\<lambda>v chk. polymodStep chk XOR word_of_nat v)
      [3, 3, 3, 3, 3, 3, 3, 0, 14, 5, 21, 20, 18, 15, 14 :: nat] 1 = 222322187"
    by (simp add: polymodStep_nat polymod_nat_def)
  moreover have "\<not> (\<exists>c \<in> set ''neutron''. of_char c < (33::nat) \<or> (126::nat) < of_char c)"
    by simp
  ultimately show ?thesis by (simp only: prefixChk_eval if_False)
qed

lemma bech32_decodeI:
  assumes "8 \<le> length str" and "toLowerCase str = str"
      and "lastIndexOf str CHR ''1'' = Some split" and "0 < split"
      and "prefixChk (take split str) = Inr chk0"
      and "6 \<le> length (drop (split + 1) str)"
      and "map ALPHABET_MAP (drop (split + 1) str) = map Some vs"
      and "fold (\<lambda>v chk. polymodStep chk XOR word_of_nat v) vs chk0 = 1"
  shows "bech32_decode str = Inr (take split str, take (length vs - 6) vs)"
proof -
  have len: "length vs = length (drop (split + 1) str)"
    using assms(7) by (metis length_map)
  have known: "\<not> (\<exists>c \<in> set (drop (split + 1) str). ALPHABET_MAP c = None)"
  proof
    assume "\<exists>c \<in> set (drop (split + 1) str). ALPHABET_MAP c = None"
    then have "None \<in> set (map ALPHABET_MAP (drop (split + 1) str))" by force
    then show False unfolding assms(7) by auto
  qed
  have vs: "map (\<lambda>c. case ALPHABET_MAP c of None \<Rightarrow> 0 | Some v \<Rightarrow> v) (drop (split + 1) str) = vs"
  proof -
    have "map (\<lambda>c. case ALPHABET_MAP c of None \<Rightarrow> 0 | Some v \<Rightarrow> v) (drop (split + 1) str) =
          map (\<lambda>x. case x of None \<Rightarrow> 0 | Some v \<Rightarrow> v) (map ALPHABET_MAP (drop (split + 1) str))"
      by simp
    also have "\<dots> = vs" unfolding assms(7) by (simp add: comp_def)
    finally show ?thesis .
  qed
  have a: "\<not> length str < 8" using assms(1) by simp
  have b: "\<not> (str \<noteq> str \<and> str \<noteq> toUpperCase str)" by simp
  have c: "\<not> split = 0" using assms(4) by simp
  have d: "\<not> length (drop (split + 1) str) < 6" using assms(6) by simp
  have e: "\<not> fold (\<lambda>v chk. polymodStep chk XOR word_of_nat v) vs chk0 \<noteq> 1" using assms(8) by simp
  show ?thesis
    unfolding bech32_decode_def Let_def assms(2)
    by (simp only: vs a b c d e known assms(3,5) if_False option.case sum.case len)
qed

lemma decode_example:
  "bech32_decode ''neutron1lzecpea0qxw5xae92xkm3vaddeszr278k7w20c'' =
     Inr (''neutron'',
      [31, 2, 25, 24, 1, 25, 29, 15, 0, 6, 14, 20, 6, 29, 25, 5, 10, 6, 22,
       27, 17, 12, 29, 13, 13, 25, 16, 2, 3, 10, 30, 7])"
proof -
  let ?a = "''neutron1lzecpea0qxw5xae92xkm3vaddeszr278k7w20c''"
  let ?vs = "[31, 2, 25, 24, 1, 25, 29, 15, 0, 6, 14, 20, 6, 29, 25, 5, 10, 6, 22,
       27, 17, 12, 29, 13, 13, 25, 16, 2, 3, 10, 30, 7, 22, 30, 14, 10, 15, 24] :: nat list"
  have 1: "8 \<le> length ?a" by simp
  have 2: "toLowerCase ?a = ?a" by code_simp
  have 3: "lastIndexOf ?a CHR ''1'' = Some 7" by code_simp
  have 4: "prefixChk (take 7 ?a) = Inr 222322187" by (simp add: prefixChk_neutron)
  have 5: "6 \<le> length (drop (7 + 1) ?a)" by simp
  have 6: "map ALPHABET_MAP (drop (7 + 1) ?a) = map Some ?vs" by code_simp
  have 7: "fold (\<lambda>v chk. polymodStep chk XOR word_of_nat v) ?vs 222322187 = 1"
    by (simp add: polymodStep_nat polymod_nat_def)
  from bech32_decodeI [OF 1 2 3 _ 4 5 6 7] show ?thesis by simp
qed

lemma fromBech32_example:
  "cosmjs_fromBech32 ''neutron1lzecpea0qxw5xae92xkm3vaddeszr278k7w20c'' =
     Inr (''neutron'', [248, 179, 128, 231, 175, 1, 157, 67, 119, 37, 81, 173, 184, 179, 173,
       110, 96, 33, 171, 199])"
proof -
  have "fromWords [31, 2, 25, 24, 1, 25, 29, 15, 0, 6, 14, 20, 6, 29, 25, 5, 10, 6, 22,
       27, 17, 12, 29, 13, 13, 25, 16, 2, 3, 10, 30, 7] =
     Inr [248, 179, 128, 231, 175, 1, 157, 67, 119, 37, 81, 173, 184, 179, 173,
       110, 96, 33, 171, 199]"
    by code_simp
  then show ?thesis by (simp add: cosmjs_fromBech32_def decode_example)
qed

lemma decode_long_example:
  "bech32_decode ''neutron1qqqqqqqqqqqqqqqqqqqqqqqqqqqqqqqqqqqqqqqqqqqqqqqqqqqqqqqqqqqqqqqqqqqqqqqqqqqqqqqqqqqqmc3gg3'' =
     Inr (''neutron'', replicate 84 0)"
proof -
  let ?a = "''neutron1qqqqqqqqqqqqqqqqqqqqqqqqqqqqqqqqqqqqqqqqqqqqqqqqqqqqqqqqqqqqqqqqqqqqqqqqqqqqqqqqqqqqmc3gg3''"
  let ?vs = "[0, 0, 0, 0, 0, 0, 0, 0, 0, 0, 0, 0, 0, 0, 0, 0, 0, 0, 0, 0, 0, 0, 0, 0, 0,
  0, 0, 0, 0, 0, 0, 0, 0, 0, 0, 0, 0, 0, 0, 0, 0, 0, 0, 0, 0, 0, 0, 0, 0, 0,
  0, 0, 0, 0, 0, 0, 0, 0, 0, 0, 0, 0, 0, 0, 0, 0, 0, 0, 0, 0, 0, 0, 0, 0, 0,
  0, 0, 0, 0, 0, 0, 0, 0, 0, 27, 24, 17, 8, 8, 17] :: nat list"
  have 1: "8 \<le> length ?a" by simp
  have 2: "toLowerCase ?a = ?a" by code_simp
  have 3: "lastIndexOf ?a CHR ''1'' = Some 7" by code_simp
  have 4: "prefixChk (take 7 ?a) = Inr 222322187" by (simp add: prefixChk_neutron)
  have 5: "6 \<le> length (drop (7 + 1) ?a)" by simp
  have 6: "map ALPHABET_MAP (drop (7 + 1) ?a) = map Some ?vs" by code_simp
  have 7: "fold (\<lambda>v chk. polymodStep chk XOR word_of_nat v) ?vs 222322187 = 1"
    by (simp add: polymodStep_nat polymod_nat_def)
  have 8: "take (length ?vs - 6) ?vs = replicate 84 0" by code_simp
  from bech32_decodeI [OF 1 2 3 _ 4 5 6 7] show ?thesis by (simp only: 8) simp
qed

lemma fromBech32_long_example:
  "cosmjs_fromBech32 ''neutron1qqqqqqqqqqqqqqqqqqqqqqqqqqqqqqqqqqqqqqqqqqqqqqqqqqqqqqqqqqqqqqqqqqqqqqqqqqqqqqqqqqqqmc3gg3'' =
     Inr (''neutron'', replicate 52 0)"
proof -
  have "fromWords (replicate 84 0) = Inr (replicate 52 0)"
    by code_simp
  moreover have "map word_of_nat (replicate 52 0) = (replicate 52 0 :: byte list)" by simp
  ultimately show ?thesis by (simp add: cosmjs_fromBech32_def decode_long_example)
qed

lemma decode_case_insensitive:
  assumes "length A = length a" and "toLowerCase A = a" and "toUpperCase A = A"
      and "toLowerCase a = a"
  shows "bech32_decode A = bech32_decode a"
  unfolding bech32_decode_def Let_def assms
  by simp

lemma fromBech32_parts:
  assumes dec: "cosmjs_fromBech32 a = Inr (p, data)" and low: "toLowerCase a = a"
  obtains words where "toWords (map unat data) = Inr words"
    and "length a = length p + 7 + length words"
proof -
  let ?val = "\<lambda>c. case ALPHABET_MAP c of None \<Rightarrow> 0 | Some v \<Rightarrow> v"
  from dec obtain words bs where d1: "bech32_decode a = Inr (p, words)"
    and d2: "fromWords words = Inr bs" and d3: "data = map word_of_nat bs"
    by (auto simp: cosmjs_fromBech32_def split: sum.splits prod.splits)
  from d1 low obtain split chk0 where split: "lastIndexOf a CHR ''1'' = Some split"
    and p: "p = take split a" and six: "6 \<le> length (drop (split + 1) a)"
    and known: "\<forall>c \<in> set (drop (split + 1) a). ALPHABET_MAP c \<noteq> None"
    and words: "words = take (length (drop (split + 1) a) - 6) (map ?val (drop (split + 1) a))"
    by (rule bech32_decode_Inr)
  from lastIndexOf_Some [OF split] have sp: "split < length a" by simp
  have w32: "\<forall>w \<in> set words. w < 32"
    using known ALPHABET_MAP_Some by (auto simp: words split: option.splits dest!: in_set_takeD)
  have tw: "toWords bs = Inr words"
    by (rule toWords_fromWords [OF d2 w32])
  have bsb: "\<forall>b \<in> set bs. b < 256"
    using d2 w32 by (rule fromWords_Inr) simp
  have "map unat data = bs" unfolding d3 by (rule bytes_unat [OF bsb])
  then have 1: "toWords (map unat data) = Inr words" using tw by simp
  have 2: "length a = length p + 7 + length words"
    using sp six by (simp add: p words)
  from 1 2 show thesis by (rule that)
qed

lemma bech32_too_long:
  assumes "cosmjs_fromBech32 a = Inr (p, data)" and "toLowerCase a = a" and "90 < length a"
  shows "cosmjs_toBech32 p data = Inl TypeError"
proof -
  from assms(1,2) obtain words where "toWords (map unat data) = Inr words"
    and "length a = length p + 7 + length words"
    by (rule fromBech32_parts)
  then show ?thesis
    using assms(3) by (simp add: cosmjs_toBech32_def bech32_encode_def)
qed

lemma example_lower:
  "toLowerCase ''neutron1lzecpea0qxw5xae92xkm3vaddeszr278k7w20c'' =
     ''neutron1lzecpea0qxw5xae92xkm3vaddeszr278k7w20c''"
  by code_simp

text \<open>C8 as stated fails in the modelled codec. An address in upper case is well-formed
  (the decoder accepts a string that is all in upper case) and is re-encoded in lower
  case; a well-formed address of more than 90 characters is decoded (the decoder is called
  without a limit) and its re-encoding is refused by the encoder's limit.\<close>

theorem convertAddressPrefix_round_trip_counterexample:
  "cosmjs_fromBech32 ''NEUTRON1LZECPEA0QXW5XAE92XKM3VADDESZR278K7W20C'' =
     Inr (''neutron'', [248, 179, 128, 231, 175, 1, 157, 67, 119, 37, 81, 173, 184, 179, 173,
       110, 96, 33, 171, 199]) \<and>
   ''neutron'' \<noteq> ''terra'' \<and>
   convertAddressPrefix exampleCodec ''NEUTRON1LZECPEA0QXW5XAE92XKM3VADDESZR278K7W20C'' ''neutron'' =
     Inr ''neutron1lzecpea0qxw5xae92xkm3vaddeszr278k7w20c'' \<and>
   ''neutron1lzecpea0qxw5xae92xkm3vaddeszr278k7w20c'' \<noteq> ''NEUTRON1LZECPEA0QXW5XAE92XKM3VADDESZR278K7W20C'' \<and>
   cosmjs_fromBech32 ''neutron1qqqqqqqqqqqqqqqqqqqqqqqqqqqqqqqqqqqqqqqqqqqqqqqqqqqqqqqqqqqqqqqqqqqqqqqqqqqqqqqqqqqqmc3gg3'' =
     Inr (''neutron'', replicate 52 0) \<and>
   convertAddressPrefix exampleCodec
     ''neutron1qqqqqqqqqqqqqqqqqqqqqqqqqqqqqqqqqqqqqqqqqqqqqqqqqqqqqqqqqqqqqqqqqqqqqqqqqqqqqqqqqqqqmc3gg3'' ''neutron'' =
     Inl TypeError"
proof -
  let ?A = "''NEUTRON1LZECPEA0QXW5XAE92XKM3VADDESZR278K7W20C''"
  let ?a = "''neutron1lzecpea0qxw5xae92xkm3vaddeszr278k7w20c''"
  let ?long = "''neutron1qqqqqqqqqqqqqqqqqqqqqqqqqqqqqqqqqqqqqqqqqqqqqqqqqqqqqqqqqqqqqqqqqqqqqqqqqqqqqqqqqqqqmc3gg3''"
  let ?data = "[248, 179, 128, 231, 175, 1, 157, 67, 119, 37, 81, 173, 184, 179, 173,
       110, 96, 33, 171, 199] :: byte list"
  have "bech32_decode ?A = bech32_decode ?a"
  proof (rule decode_case_insensitive)
    show "length ?A = length ?a" by simp
    show "toLowerCase ?A = ?a" by code_simp
    show "toUpperCase ?A = ?A" by code_simp
    show "toLowerCase ?a = ?a" by (rule example_lower)
  qed
  then have 1: "cosmjs_fromBech32 ?A = Inr (''neutron'', ?data)"
    using fromBech32_example by (simp add: cosmjs_fromBech32_def)
  have "cosmjs_toBech32 ''neutron'' ?data = Inr ?a"
    by (rule bech32_roundtrip [OF fromBech32_example example_lower]) simp
  then have 2: "convertAddressPrefix exampleCodec ?A ''neutron'' = Inr ?a"
    using 1 by (simp add: convertAddressPrefix_def exampleCodec_def)
  have 3: "?a \<noteq> ?A" by simp
  have low: "toLowerCase ?long = ?long" by code_simp
  have "cosmjs_toBech32 ''neutron'' (replicate 52 0) = Inl TypeError"
    by (rule bech32_too_long [OF fromBech32_long_example low]) simp
  then have 4: "convertAddressPrefix exampleCodec ?long ''neutron'' = Inl TypeError"
    using fromBech32_long_example by (simp add: convertAddressPrefix_def exampleCodec_def)
  show ?thesis
    by (intro conjI) (rule 1, simp, rule 2, rule 3, rule fromBech32_long_example, rule 4)
qed

text \<open>C8, amended. With the modelled codec: for every well-formed checksummed address \<open>a\<close>
  that is written in lower case and has at most 90 characters, and whose prefix is
  \<open>p \<noteq> ''terra''\<close>, \<open>convertAddressPrefix a p = a\<close>.\<close>

theorem convertAddressPrefix_round_trip:
  assumes "fromBech32 E = cosmjs_fromBech32" and "toBech32 E = cosmjs_toBech32"
      and "fromBech32 E a = Inr (p, data)"
      and "toLowerCase a = a" and "length a \<le> 90"
      and "p \<noteq> ''terra''"
  shows "convertAddressPrefix E a p = Inr a"
proof -
  have "cosmjs_toBech32 p data = Inr a"
    by (rule bech32_roundtrip) (use assms in simp_all)
  then show ?thesis
    using assms by (simp add: convertAddressPrefix_def)
qed

theorem convertAddressPrefix_round_trip_witness:
  "fromBech32 exampleCodec = cosmjs_fromBech32 \<and> toBech32 exampleCodec = cosmjs_toBech32 \<and>
   fromBech32 exampleCodec ''neutron1lzecpea0qxw5xae92xkm3vaddeszr278k7w20c'' =
     Inr (''neutron'', [248, 179, 128, 231, 175, 1, 157, 67, 119, 37, 81, 173, 184, 179, 173,
       110, 96, 33, 171, 199]) \<and>
   toLowerCase ''neutron1lzecpea0qxw5xae92xkm3vaddeszr278k7w20c'' =
     ''neutron1lzecpea0qxw5xae92xkm3vaddeszr278k7w20c'' \<and>
   length ''neutron1lzecpea0qxw5xae92xkm3vaddeszr278k7w20c'' \<le> 90 \<and>
   ''neutron'' \<noteq> ''terra'' \<and>
   convertAddressPrefix exampleCodec ''neutron1lzecpea0qxw5xae92xkm3vaddeszr278k7w20c'' ''neutron'' =
     Inr ''neutron1lzecpea0qxw5xae92xkm3vaddeszr278k7w20c''"
proof -
  have a: "fromBech32 exampleCodec = cosmjs_fromBech32"
    and b: "toBech32 exampleCodec = cosmjs_toBech32"
    by (simp_all add: exampleCodec_def)
  have c: "fromBech32 exampleCodec ''neutron1lzecpea0qxw5xae92xkm3vaddeszr278k7w20c'' =
     Inr (''neutron'', [248, 179, 128, 231, 175, 1, 157, 67, 119, 37, 81, 173, 184, 179, 173,
       110, 96, 33, 171, 199])"
    by (simp only: a fromBech32_example)
  have d: "length ''neutron1lzecpea0qxw5xae92xkm3vaddeszr278k7w20c'' \<le> 90" by simp
  have e: "''neutron'' \<noteq> ''terra''" by simp
  show ?thesis
    by (intro conjI)
       (rule a, rule b, rule c, rule example_lower, rule d, rule e,
        rule convertAddressPrefix_round_trip [OF a b c example_lower d e])
qed

end
